theory Spec2Isabelle
  imports Main
begin

unbundle bit_operations_syntax

section \<open>Strings and numbers\<close>

text \<open>
  A JavaScript string is a sequence of UTF-16 code units; \<open>str.length\<close>, \<open>str[i]\<close>,
  \<open>charCodeAt\<close>, \<open>slice\<close> and \<open>indexOf\<close> all count code units. A string is modelled as
  the list of its code units, each a natural number. \<open>js\<close> writes an ASCII literal.
\<close>

type_synonym jsstring = "nat list"

definition js :: "string \<Rightarrow> jsstring" where
  "js s = map of_char s"

text \<open>
  A JavaScript number is an IEEE 754 binary64 value. The numbers the mouse parser
  computes are integers or infinite: it starts from 0, multiplies by 10, adds a digit
  and subtracts 1. \<open>Num n\<close> is the double whose value is the integer \<open>n\<close>.
  \<open>round64 n\<close> is the double that an operation with the exact integer result \<open>n\<close>
  returns: \<open>n\<close> itself below \<open>2^53\<close> in magnitude, otherwise \<open>n\<close> rounded to 53
  significant bits, to nearest with ties to the even significand, and an infinity when
  the rounded magnitude reaches \<open>2^1024\<close>. \<open>bitLength\<close> is the number of binary digits.
\<close>

datatype jsnumber = Num int | Infinity | NegInfinity

function bitLength :: "int \<Rightarrow> nat" where
  "bitLength n = (if n \<le> 0 then 0 else Suc (bitLength (n div 2)))"
  by pat_completeness auto
termination
  by (relation "measure nat") auto

declare bitLength.simps [simp del]

definition round64 :: "int \<Rightarrow> jsnumber" where
  "round64 n =
     (let a = \<bar>n\<bar> in
      if a < 2 ^ 53 then Num n
      else
        (let q = 2 ^ (bitLength a - 53);
             m = a div q;
             r = a mod q;
             m' = (if 2 * r < q then m
                   else if q < 2 * r then m + 1
                   else if even m then m else m + 1)
         in if 2 ^ 1024 \<le> m' * q then (if 0 < n then Infinity else NegInfinity)
            else Num (sgn n * (m' * q))))"

text \<open>
  \<open>v * 10\<close>, \<open>v + k\<close> and \<open>v - k\<close> for an integer \<open>k\<close>; an infinity stays what it is.
\<close>

definition times10 :: "jsnumber \<Rightarrow> jsnumber" where
  "times10 v =
     (case v of Num n \<Rightarrow> round64 (n * 10) | Infinity \<Rightarrow> Infinity | NegInfinity \<Rightarrow> NegInfinity)"

definition plusInt :: "jsnumber \<Rightarrow> int \<Rightarrow> jsnumber" where
  "plusInt v k =
     (case v of Num n \<Rightarrow> round64 (n + k) | Infinity \<Rightarrow> Infinity | NegInfinity \<Rightarrow> NegInfinity)"

definition minusInt :: "jsnumber \<Rightarrow> int \<Rightarrow> jsnumber" where
  "minusInt v k =
     (case v of Num n \<Rightarrow> round64 (n - k) | Infinity \<Rightarrow> Infinity | NegInfinity \<Rightarrow> NegInfinity)"

text \<open>
  \<open>v & k\<close> converts \<open>v\<close> with ToInt32: an integer is reduced modulo \<open>2^32\<close> into the
  signed 32-bit range, an infinity becomes 0. The masks \<open>k\<close> of the parser are small
  non-negative integers, which ToInt32 leaves as they are.
\<close>

definition toInt32 :: "jsnumber \<Rightarrow> int" where
  "toInt32 v = (case v of Num n \<Rightarrow> signed_take_bit 31 n | Infinity \<Rightarrow> 0 | NegInfinity \<Rightarrow> 0)"

definition bitAnd :: "jsnumber \<Rightarrow> int \<Rightarrow> int" where
  "bitAnd v k = toInt32 v AND k"

section \<open>The mouse parser (packages/core/src/lib/parse.mouse.ts)\<close>

datatype MouseEventType = Down | Up | Move | Drag | DragEnd | Drop | Over | Out | Scroll

datatype ScrollDirection = DirUp | DirDown | DirLeft | DirRight

text \<open>
  The records keep the source's field names behind a prefix (\<open>ev_x\<close> for \<open>x\<close>,
  \<open>mod_shift\<close> for \<open>modifiers.shift\<close>), since a record field is a global constant.
  \<open>scroll_direction\<close> is an option: \<open>SCROLL_DIRECTIONS[button]\<close> is \<open>undefined\<close> for a
  key the table does not have, and the non-null assertion \<open>scrollDirection!\<close> does
  nothing at run time. The button of an event comes out of \<open>&\<close> or is a small constant,
  so it is an integer; the coordinates are numbers.
\<close>

record ScrollInfo =
  scroll_direction :: "ScrollDirection option"
  scroll_delta :: int

record Modifiers =
  mod_shift :: bool
  mod_alt :: bool
  mod_ctrl :: bool

record RawMouseEvent =
  ev_type :: MouseEventType
  ev_button :: int
  ev_x :: jsnumber
  ev_y :: jsnumber
  ev_modifiers :: Modifiers
  ev_scroll :: "ScrollInfo option"

text \<open>The parser's only state is \<open>mouseButtonsPressed\<close>, a set of button numbers.\<close>

type_synonym mouseButtonsPressed = "int set"

definition SCROLL_DIRECTIONS :: "int \<Rightarrow> ScrollDirection option" where
  "SCROLL_DIRECTIONS k =
     (if k = 0 then Some DirUp else if k = 1 then Some DirDown
      else if k = 2 then Some DirLeft else if k = 3 then Some DirRight else None)"

text \<open>\<open>reset()\<close> clears the pressed set.\<close>

definition reset :: "mouseButtonsPressed \<Rightarrow> mouseButtonsPressed" where
  "reset pressed = {}"

text \<open>
  \<open>decodeSgrEvent(rawButtonCode, wireX, wireY, pressRelease)\<close>: \<open>pressRelease\<close> is the
  final character, given by its code unit (77 is \<open>M\<close>, 109 is \<open>m\<close>). The result is the event
  and the pressed set after the call.
\<close>

definition decodeSgrEvent ::
  "mouseButtonsPressed \<Rightarrow> jsnumber \<Rightarrow> jsnumber \<Rightarrow> jsnumber \<Rightarrow> nat
     \<Rightarrow> RawMouseEvent \<times> mouseButtonsPressed" where
  "decodeSgrEvent pressed rawButtonCode wireX wireY pressRelease =
     (let button = bitAnd rawButtonCode 3;
          isScroll = (bitAnd rawButtonCode 64 \<noteq> 0);
          scrollDirection = (if \<not> isScroll then None else SCROLL_DIRECTIONS button);
          isMotion = (bitAnd rawButtonCode 32 \<noteq> 0);
          modifiers = \<lparr> mod_shift = (bitAnd rawButtonCode 4 \<noteq> 0),
                        mod_alt = (bitAnd rawButtonCode 8 \<noteq> 0),
                        mod_ctrl = (bitAnd rawButtonCode 16 \<noteq> 0) \<rparr>;
          (ty, scrollInfo, pressed') =
            (if isScroll \<and> pressRelease = 77 then
               (Scroll, Some \<lparr> scroll_direction = scrollDirection, scroll_delta = 1 \<rparr>, pressed)
             else if isMotion then
               (let isDragging = (pressed \<noteq> {}) in
                if button = 3 then (Move, None, pressed)
                else if isDragging then (Drag, None, pressed)
                else (Move, None, pressed))
             else
               (let ty = (if pressRelease = 77 then Down else Up) in
                if ty = Down \<and> button \<noteq> 3 then (ty, None, insert button pressed)
                else if ty = Up then (ty, None, {})
                else (ty, None, pressed)))
      in (\<lparr> ev_type = ty,
             ev_button = (if button = 3 then 0 else button),
             ev_x = minusInt wireX 1,
             ev_y = minusInt wireY 1,
             ev_modifiers = modifiers,
             ev_scroll = scrollInfo \<rparr>, pressed'))"

text \<open>
  \<open>decodeBasicEvent(buttonByte, x, y)\<close> neither reads nor writes the pressed set. Its
  arguments are a code unit less 32 or 33, so they are small integers.
\<close>

definition decodeBasicEvent :: "int \<Rightarrow> int \<Rightarrow> int \<Rightarrow> RawMouseEvent" where
  "decodeBasicEvent buttonByte x y =
     (let button = buttonByte AND 3;
          isScroll = (buttonByte AND 64 \<noteq> 0);
          isMotion = (buttonByte AND 32 \<noteq> 0);
          scrollDirection = (if \<not> isScroll then None else SCROLL_DIRECTIONS button);
          modifiers = \<lparr> mod_shift = (buttonByte AND 4 \<noteq> 0),
                        mod_alt = (buttonByte AND 8 \<noteq> 0),
                        mod_ctrl = (buttonByte AND 16 \<noteq> 0) \<rparr>;
          (ty, actualButton, scrollInfo) =
            (if isScroll then
               (Scroll, 0, Some \<lparr> scroll_direction = scrollDirection, scroll_delta = 1 \<rparr>)
             else if isMotion then
               (Move, (if button = 3 then - 1 else button), None)
             else
               ((if button = 3 then Up else Down), (if button = 3 then 0 else button), None))
      in \<lparr> ev_type = ty,
            ev_button = actualButton,
            ev_x = Num x,
            ev_y = Num y,
            ev_modifiers = modifiers,
            ev_scroll = scrollInfo \<rparr>)"

text \<open>
  A parsed sequence: the event, \<open>consumed\<close>, and the pressed set after decoding.
  \<open>null\<close> is \<open>None\<close>.
\<close>

type_synonym ParsedMouseSequence = "RawMouseEvent \<times> nat \<times> mouseButtonsPressed"

text \<open>
  The \<open>while (index < str.length)\<close> loop of \<open>parseSgrSequence\<close>. Its first argument is
  the part of \<open>str\<close> from \<open>index\<close> on (\<open>drop index str\<close>), so the loop ends when it is
  empty; \<open>values\<close> is the three-element array of numbers, \<open>part\<close> stays within \<open>0..2\<close>.
  Code units: 48..57 are the digits, 59 is \<open>;\<close>, 77 is \<open>M\<close>, 109 is \<open>m\<close>.
\<close>

fun parseSgrLoop ::
  "jsstring \<Rightarrow> nat \<Rightarrow> jsnumber list \<Rightarrow> nat \<Rightarrow> bool \<Rightarrow> mouseButtonsPressed \<Rightarrow> nat
     \<Rightarrow> ParsedMouseSequence option" where
  "parseSgrLoop [] index values part hasDigit pressed offset = None"
| "parseSgrLoop (charCode # rest) index values part hasDigit pressed offset =
     (if 48 \<le> charCode \<and> charCode \<le> 57 then
        parseSgrLoop rest (index + 1)
          (values[part := plusInt (times10 (values ! part)) (int charCode - 48)])
          part True pressed offset
      else if charCode = 59 then
        (if \<not> hasDigit \<or> 2 \<le> part then None
         else parseSgrLoop rest (index + 1) values (part + 1) False pressed offset)
      else if charCode = 77 \<or> charCode = 109 then
        (if \<not> hasDigit \<or> part \<noteq> 2 then None
         else (case decodeSgrEvent pressed (values ! 0) (values ! 1) (values ! 2) charCode of
                 (event, pressed') \<Rightarrow> Some (event, index - offset + 1, pressed')))
      else None)"

definition parseSgrSequence ::
  "mouseButtonsPressed \<Rightarrow> jsstring \<Rightarrow> nat \<Rightarrow> ParsedMouseSequence option" where
  "parseSgrSequence pressed str offset =
     parseSgrLoop (drop (offset + 3) str) (offset + 3) [Num 0, Num 0, Num 0] 0 False pressed offset"

definition parseBasicSequence ::
  "mouseButtonsPressed \<Rightarrow> jsstring \<Rightarrow> nat \<Rightarrow> ParsedMouseSequence option" where
  "parseBasicSequence pressed str offset =
     (if length str < offset + 6 then None
      else
        (let buttonByte = int (str ! (offset + 3)) - 32;
             x = int (str ! (offset + 4)) - 33;
             y = int (str ! (offset + 5)) - 33
         in Some (decodeBasicEvent buttonByte x y, 6, pressed)))"

text \<open>
  \<open>parseMouseSequenceAt\<close>: \<open>str.startsWith("\x1b[", offset)\<close>, then the introducer
  \<open>str[offset + 2]\<close> (\<open>undefined\<close> past the end, which is neither \<open><\<close> = 60 nor
  \<open>M\<close> = 77).
\<close>

definition parseMouseSequenceAt ::
  "mouseButtonsPressed \<Rightarrow> jsstring \<Rightarrow> nat \<Rightarrow> ParsedMouseSequence option" where
  "parseMouseSequenceAt pressed str offset =
     (if take 2 (drop offset str) \<noteq> [27, 91] then None
      else
        (case drop (offset + 2) str of
           [] \<Rightarrow> None
         | introducer # _ \<Rightarrow>
             if introducer = 60 then parseSgrSequence pressed str offset
             else if introducer = 77 then parseBasicSequence pressed str offset
             else None))"

text \<open>
  \<open>parseMouseEvent\<close>: the event of the sequence at offset 0, or \<open>null\<close>. It and
  \<open>parseAllMouseEvents\<close> first decode the buffer (\<open>decodeInput\<close>, that is
  \<open>Buffer.toString\<close>); the model starts from the decoded string. On ASCII input, which
  every SGR sequence is, the code units are the bytes.
\<close>

definition parseMouseEvent ::
  "mouseButtonsPressed \<Rightarrow> jsstring \<Rightarrow> RawMouseEvent option \<times> mouseButtonsPressed" where
  "parseMouseEvent pressed str =
     (case parseMouseSequenceAt pressed str 0 of
        None \<Rightarrow> (None, pressed)
      | Some (event, consumed, pressed') \<Rightarrow> (Some event, pressed'))"

lemma parseSgrLoop_consumed_pos:
  "parseSgrLoop cs index vs part hasDigit pressed offset = Some (event, consumed, pressed')
     \<Longrightarrow> 0 < consumed"
  by (induction cs index vs part hasDigit pressed offset rule: parseSgrLoop.induct)
     (auto split: if_splits prod.splits)

lemma parseMouseSequenceAt_consumed_pos:
  "parseMouseSequenceAt pressed str offset = Some (event, consumed, pressed') \<Longrightarrow> 0 < consumed"
  by (auto simp: parseMouseSequenceAt_def parseSgrSequence_def parseBasicSequence_def Let_def
           split: if_splits list.splits dest: parseSgrLoop_consumed_pos)

text \<open>
  The loop of \<open>parseAllMouseEvents\<close>, with the events so far, returning the events, the
  final \<open>offset\<close> and the pressed set. It stops (\<open>break\<close>) at the first position where
  \<open>parseMouseSequenceAt\<close> returns \<open>null\<close>. It terminates because \<open>consumed\<close> is positive.
\<close>

function parseAllMouseEventsLoop ::
  "mouseButtonsPressed \<Rightarrow> jsstring \<Rightarrow> nat \<Rightarrow> RawMouseEvent list
     \<Rightarrow> RawMouseEvent list \<times> nat \<times> mouseButtonsPressed" where
  "parseAllMouseEventsLoop pressed str offset events =
     (if offset < length str then
        (case parseMouseSequenceAt pressed str offset of
           None \<Rightarrow> (events, offset, pressed)
         | Some (event, consumed, pressed') \<Rightarrow>
             parseAllMouseEventsLoop pressed' str (offset + consumed) (events @ [event]))
      else (events, offset, pressed))"
  by pat_completeness auto
termination
  by (relation "measure (\<lambda>(pressed, str, offset, events). length str - offset)")
     (auto dest: parseMouseSequenceAt_consumed_pos)

definition parseAllMouseEvents ::
  "mouseButtonsPressed \<Rightarrow> jsstring \<Rightarrow> RawMouseEvent list \<times> mouseButtonsPressed" where
  "parseAllMouseEvents pressed str =
     (case parseAllMouseEventsLoop pressed str 0 [] of
        (events, offset, pressed') \<Rightarrow> (events, pressed'))"

declare parseAllMouseEventsLoop.simps [simp del]

subsection \<open>The wire format of an SGR sequence\<close>

text \<open>
  \<open>sgrSequence bs xs ys final\<close> is the sequence \<open>ESC [ < b ; x ; y F\<close>, where \<open>bs\<close>,
  \<open>xs\<close> and \<open>ys\<close> are the decimal digits of the three numbers and \<open>final\<close> is the final
  character. \<open>isDigits\<close> says that a string is a non-empty run of the digits \<open>0\<close>..\<open>9\<close>,
  \<open>decimalValue\<close> is the integer it denotes, and \<open>jsDecimal\<close> is the number that the
  parser's arithmetic makes of it, which is that integer as long as it is below \<open>2^53\<close>.
\<close>

definition isDigits :: "jsstring \<Rightarrow> bool" where
  "isDigits ds = (ds \<noteq> [] \<and> list_all (\<lambda>c. 48 \<le> c \<and> c \<le> 57) ds)"

definition decimalValue :: "jsstring \<Rightarrow> int" where
  "decimalValue ds = foldl (\<lambda>v c. v * 10 + (int c - 48)) 0 ds"

definition jsDecimal :: "jsstring \<Rightarrow> jsnumber" where
  "jsDecimal ds = foldl (\<lambda>v c. plusInt (times10 v) (int c - 48)) (Num 0) ds"

definition sgrSequence :: "jsstring \<Rightarrow> jsstring \<Rightarrow> jsstring \<Rightarrow> nat \<Rightarrow> jsstring" where
  "sgrSequence bs xs ys final = [27, 91, 60] @ bs @ [59] @ xs @ [59] @ ys @ [final]"

text \<open>
  A mouse sequence starts at \<open>offset\<close> of \<open>str\<close> when the string goes on from there with
  a complete SGR sequence, or with \<open>ESC [ M\<close> and three more code units.
\<close>

abbreviation mouseSequenceAt :: "jsstring \<Rightarrow> nat \<Rightarrow> bool" where
  "mouseSequenceAt str offset \<equiv>
     (\<exists>bs xs ys final rest.
        drop offset str = sgrSequence bs xs ys final @ rest \<and>
        isDigits bs \<and> isDigits xs \<and> isDigits ys \<and> (final = 77 \<or> final = 109)) \<or>
     (take 3 (drop offset str) = [27, 91, 77] \<and> offset + 6 \<le> length str)"

subsection \<open>Facts about the numbers\<close>

lemma round64_exact: "\<bar>n\<bar> < 2 ^ 53 \<Longrightarrow> round64 n = Num n"
  by (simp add: round64_def)

lemma decimalValue_snoc:
  "decimalValue (ds @ [c]) = decimalValue ds * 10 + (int c - 48)"
  by (simp add: decimalValue_def)

lemma decimalValue_nonneg:
  "list_all (\<lambda>c. 48 \<le> c \<and> c \<le> 57) ds \<Longrightarrow> 0 \<le> decimalValue ds"
  by (induction ds rule: rev_induct) (simp_all add: decimalValue_snoc, simp add: decimalValue_def)

lemma jsDecimal_exact:
  "list_all (\<lambda>c. 48 \<le> c \<and> c \<le> 57) ds \<Longrightarrow> decimalValue ds < 2 ^ 53 \<Longrightarrow>
   jsDecimal ds = Num (decimalValue ds)"
proof (induction ds rule: rev_induct)
  case Nil
  then show ?case by (simp add: jsDecimal_def decimalValue_def)
next
  case (snoc c ds)
  from snoc.prems have digits: "list_all (\<lambda>c. 48 \<le> c \<and> c \<le> 57) ds" and c: "48 \<le> c" "c \<le> 57"
    by simp_all
  from digits have nonneg: "0 \<le> decimalValue ds"
    by (rule decimalValue_nonneg)
  from snoc.prems(2) have bound: "decimalValue ds * 10 + (int c - 48) < 2 ^ 53"
    by (simp add: decimalValue_snoc)
  with nonneg c have small: "decimalValue ds < 2 ^ 53" "decimalValue ds * 10 < 2 ^ 53"
    by simp_all
  from snoc.IH [OF digits small(1)] have "jsDecimal ds = Num (decimalValue ds)" .
  then have "jsDecimal (ds @ [c]) =
             plusInt (times10 (Num (decimalValue ds))) (int c - 48)"
    by (simp add: jsDecimal_def)
  also have "times10 (Num (decimalValue ds)) = Num (decimalValue ds * 10)"
    using nonneg small by (simp add: times10_def round64_exact)
  also have "plusInt (Num (decimalValue ds * 10)) (int c - 48) =
             Num (decimalValue ds * 10 + (int c - 48))"
    using nonneg bound c by (simp add: plusInt_def round64_exact)
  finally show ?case
    by (simp add: decimalValue_snoc)
qed

lemma toInt32_AND:
  assumes "0 \<le> k" "k < 2 ^ 31"
  shows "signed_take_bit 31 n AND k = n AND (k::int)"
proof (rule bit_eqI)
  fix i
  from assms have "take_bit 31 k = k"
    by (simp add: take_bit_int_eq_self)
  then have "bit k i \<Longrightarrow> i < 31"
    by (metis bit_take_bit_iff)
  then show "bit (signed_take_bit 31 n AND k) i = bit (n AND k) i"
    by (auto simp: bit_and_iff bit_signed_take_bit_iff min_def)
qed

lemma bitAnd_Num:
  "0 \<le> k \<Longrightarrow> k < 2 ^ 31 \<Longrightarrow> bitAnd (Num n) k = n AND k"
  by (simp add: bitAnd_def toInt32_def toInt32_AND)

lemma bitAnd_jsDecimal:
  "isDigits ds \<Longrightarrow> decimalValue ds < 2 ^ 53 \<Longrightarrow> 0 \<le> k \<Longrightarrow> k < 2 ^ 31 \<Longrightarrow>
   bitAnd (jsDecimal ds) k = decimalValue ds AND k"
  by (simp add: isDigits_def jsDecimal_exact bitAnd_Num)

lemma minusInt_jsDecimal:
  "isDigits ds \<Longrightarrow> decimalValue ds < 2 ^ 53 \<Longrightarrow>
   minusInt (jsDecimal ds) 1 = Num (decimalValue ds - 1)"
proof -
  assume d: "isDigits ds" and b: "decimalValue ds < 2 ^ 53"
  from d have "0 \<le> decimalValue ds"
    by (simp add: isDigits_def decimalValue_nonneg)
  with b have "\<bar>decimalValue ds - 1\<bar> < 2 ^ 53"
    by simp
  with d b show ?thesis
    by (simp add: isDigits_def jsDecimal_exact minusInt_def round64_exact)
qed

subsection \<open>Facts about the parser loops\<close>

lemma parseSgrLoop_digits:
  "list_all (\<lambda>c. 48 \<le> c \<and> c \<le> 57) ds \<Longrightarrow> part < length vs \<Longrightarrow>
   parseSgrLoop (ds @ rest) index vs part hasDigit pressed offset =
   parseSgrLoop rest (index + length ds)
     (vs[part := foldl (\<lambda>v c. plusInt (times10 v) (int c - 48)) (vs ! part) ds]) part
     (hasDigit \<or> ds \<noteq> []) pressed offset"
proof (induction ds arbitrary: index vs hasDigit)
  case Nil
  then show ?case by simp
next
  case (Cons d ds)
  then show ?case by simp
qed

text \<open>An SGR sequence in the input is parsed, whatever follows it.\<close>

lemma parseSgrLoop_sequence:
  assumes "isDigits bs" "isDigits xs" "isDigits ys" "final = 77 \<or> final = 109"
  shows "parseSgrLoop (bs @ 59 # xs @ 59 # ys @ final # rest) index [Num 0, Num 0, Num 0] 0
           False pressed offset =
    Some (fst (decodeSgrEvent pressed (jsDecimal bs) (jsDecimal xs) (jsDecimal ys) final),
          index + length bs + length xs + length ys + 2 - offset + 1,
          snd (decodeSgrEvent pressed (jsDecimal bs) (jsDecimal xs) (jsDecimal ys) final))"
proof -
  have b: "list_all (\<lambda>c. 48 \<le> c \<and> c \<le> 57) bs" "bs \<noteq> []"
    and x: "list_all (\<lambda>c. 48 \<le> c \<and> c \<le> 57) xs" "xs \<noteq> []"
    and y: "list_all (\<lambda>c. 48 \<le> c \<and> c \<le> 57) ys" "ys \<noteq> []"
    using assms by (simp_all add: isDigits_def)
  have "parseSgrLoop (bs @ 59 # xs @ 59 # ys @ final # rest) index [Num 0, Num 0, Num 0] 0
          False pressed offset =
        parseSgrLoop (59 # xs @ 59 # ys @ final # rest) (index + length bs)
          [jsDecimal bs, Num 0, Num 0] 0 True pressed offset"
    using b by (simp add: parseSgrLoop_digits jsDecimal_def)
  also have "\<dots> = parseSgrLoop (xs @ 59 # ys @ final # rest) (index + length bs + 1)
                     [jsDecimal bs, Num 0, Num 0] 1 False pressed offset"
    by simp
  also have "\<dots> = parseSgrLoop (59 # ys @ final # rest) (index + length bs + 1 + length xs)
                     [jsDecimal bs, jsDecimal xs, Num 0] 1 True pressed offset"
    using x by (simp add: parseSgrLoop_digits jsDecimal_def)
  also have "\<dots> = parseSgrLoop (ys @ final # rest) (index + length bs + 1 + length xs + 1)
                     [jsDecimal bs, jsDecimal xs, Num 0] 2 False pressed offset"
    by (simp add: numeral_2_eq_2)
  also have "\<dots> = parseSgrLoop (final # rest) (index + length bs + 1 + length xs + 1 + length ys)
                     [jsDecimal bs, jsDecimal xs, jsDecimal ys] 2 True pressed offset"
    using y by (simp add: parseSgrLoop_digits jsDecimal_def)
  also have "\<dots> =
    Some (fst (decodeSgrEvent pressed (jsDecimal bs) (jsDecimal xs) (jsDecimal ys) final),
          index + length bs + length xs + length ys + 2 - offset + 1,
          snd (decodeSgrEvent pressed (jsDecimal bs) (jsDecimal xs) (jsDecimal ys) final))"
    using assms(4) by (auto simp: add.assoc split: prod.splits)
  finally show ?thesis .
qed

lemma parseMouseSequenceAt_sgrSequence:
  assumes "drop offset str = sgrSequence bs xs ys final @ rest"
    and "isDigits bs" "isDigits xs" "isDigits ys" "final = 77 \<or> final = 109"
  shows "parseMouseSequenceAt pressed str offset =
    Some (fst (decodeSgrEvent pressed (jsDecimal bs) (jsDecimal xs) (jsDecimal ys) final),
          length (sgrSequence bs xs ys final),
          snd (decodeSgrEvent pressed (jsDecimal bs) (jsDecimal xs) (jsDecimal ys) final))"
proof -
  have d2: "drop (offset + 2) str = drop 2 (drop offset str)"
    and d3: "drop (offset + 3) str = drop 3 (drop offset str)"
    by (simp_all add: add.commute)
  have two: "take 2 (drop offset str) = [27, 91]"
    and intro: "drop (offset + 2) str = 60 # bs @ 59 # xs @ 59 # ys @ final # rest"
    and body: "drop (offset + 3) str = bs @ 59 # xs @ 59 # ys @ final # rest"
    unfolding d2 d3 assms(1) sgrSequence_def by simp_all
  have "parseMouseSequenceAt pressed str offset =
        parseSgrLoop (bs @ 59 # xs @ 59 # ys @ final # rest) (offset + 3)
          [Num 0, Num 0, Num 0] 0 False pressed offset"
    using two intro body by (simp add: parseMouseSequenceAt_def parseSgrSequence_def)
  also note parseSgrLoop_sequence [OF assms(2-5)]
  finally show ?thesis
    by (simp add: sgrSequence_def)
qed

lemma parseAllMouseEvents_single:
  assumes "parseMouseSequenceAt pressed str 0 = Some (event, length str, pressed')"
  shows "parseAllMouseEventsLoop pressed str 0 [] = ([event], length str, pressed')"
proof -
  have "0 < length str"
    using assms by (rule parseMouseSequenceAt_consumed_pos)
  then show ?thesis
    using assms
    by (simp add: parseAllMouseEventsLoop.simps [of pressed str 0]
                  parseAllMouseEventsLoop.simps [of pressed' str "length str"])
qed

lemma parseAllMouseEvents_sgrSequence:
  assumes "isDigits bs" "isDigits xs" "isDigits ys" "final = 77 \<or> final = 109"
  shows "parseAllMouseEvents pressed (sgrSequence bs xs ys final) =
    ([fst (decodeSgrEvent pressed (jsDecimal bs) (jsDecimal xs) (jsDecimal ys) final)],
     snd (decodeSgrEvent pressed (jsDecimal bs) (jsDecimal xs) (jsDecimal ys) final))"
proof -
  have "drop 0 (sgrSequence bs xs ys final) = sgrSequence bs xs ys final @ []"
    by simp
  from parseMouseSequenceAt_sgrSequence [OF this assms, of pressed]
  show ?thesis
    by (simp add: parseAllMouseEvents_def parseAllMouseEvents_single)
qed

text \<open>Whatever the loop accepts is an SGR sequence: one lemma for each part.\<close>

lemma parseSgrLoop_part2:
  "parseSgrLoop cs index vs 2 hasDigit pressed offset = Some r \<Longrightarrow>
   \<exists>ds final rest. cs = ds @ final # rest \<and> list_all (\<lambda>c. 48 \<le> c \<and> c \<le> 57) ds \<and>
     (hasDigit \<or> ds \<noteq> []) \<and> (final = 77 \<or> final = 109)"
proof (induction cs arbitrary: index vs hasDigit)
  case Nil
  then show ?case by simp
next
  case (Cons c cs)
  show ?case
  proof (cases "48 \<le> c \<and> c \<le> 57")
    case True
    with Cons.prems obtain ds final rest where
      "cs = ds @ final # rest" "list_all (\<lambda>c. 48 \<le> c \<and> c \<le> 57) ds" "final = 77 \<or> final = 109"
      using Cons.IH by (fastforce split: if_splits)
    with True have "c # cs = (c # ds) @ final # rest \<and>
        list_all (\<lambda>c. 48 \<le> c \<and> c \<le> 57) (c # ds) \<and> (hasDigit \<or> c # ds \<noteq> []) \<and>
        (final = 77 \<or> final = 109)"
      by simp
    then show ?thesis by blast
  next
    case False
    with Cons.prems have "hasDigit" "c = 77 \<or> c = 109"
      by (auto split: if_splits)
    then have "c # cs = [] @ c # cs \<and> list_all (\<lambda>c. 48 \<le> c \<and> c \<le> 57) [] \<and>
        (hasDigit \<or> [] \<noteq> ([]::nat list)) \<and> (c = 77 \<or> c = 109)"
      by simp
    then show ?thesis by blast
  qed
qed

lemma parseSgrLoop_part1:
  "parseSgrLoop cs index vs 1 hasDigit pressed offset = Some r \<Longrightarrow>
   \<exists>ds ys final rest. cs = ds @ 59 # ys @ final # rest \<and>
     list_all (\<lambda>c. 48 \<le> c \<and> c \<le> 57) ds \<and> (hasDigit \<or> ds \<noteq> []) \<and>
     isDigits ys \<and> (final = 77 \<or> final = 109)"
proof (induction cs arbitrary: index vs hasDigit)
  case Nil
  then show ?case by simp
next
  case (Cons c cs)
  show ?case
  proof (cases "48 \<le> c \<and> c \<le> 57")
    case True
    with Cons.prems obtain ds ys final rest where
      "cs = ds @ 59 # ys @ final # rest" "list_all (\<lambda>c. 48 \<le> c \<and> c \<le> 57) ds"
      "isDigits ys" "final = 77 \<or> final = 109"
      using Cons.IH by (fastforce split: if_splits)
    with True have "c # cs = (c # ds) @ 59 # ys @ final # rest \<and>
        list_all (\<lambda>c. 48 \<le> c \<and> c \<le> 57) (c # ds) \<and> (hasDigit \<or> c # ds \<noteq> []) \<and>
        isDigits ys \<and> (final = 77 \<or> final = 109)"
      by simp
    then show ?thesis by blast
  next
    case False
    with Cons.prems have h: "hasDigit" "c = 59"
      and next2: "parseSgrLoop cs (index + 1) vs 2 False pressed offset = Some r"
      by (auto simp: numeral_2_eq_2 split: if_splits)
    from parseSgrLoop_part2 [OF next2] obtain ys final rest where
      "cs = ys @ final # rest" "list_all (\<lambda>c. 48 \<le> c \<and> c \<le> 57) ys" "ys \<noteq> []"
      "final = 77 \<or> final = 109"
      by auto
    with h have "c # cs = [] @ 59 # ys @ final # rest \<and>
        list_all (\<lambda>c. 48 \<le> c \<and> c \<le> 57) [] \<and> (hasDigit \<or> [] \<noteq> ([]::nat list)) \<and>
        isDigits ys \<and> (final = 77 \<or> final = 109)"
      by (simp add: isDigits_def)
    then show ?thesis by blast
  qed
qed

lemma parseSgrLoop_part0:
  "parseSgrLoop cs index vs 0 hasDigit pressed offset = Some r \<Longrightarrow>
   \<exists>ds xs ys final rest. cs = ds @ 59 # xs @ 59 # ys @ final # rest \<and>
     list_all (\<lambda>c. 48 \<le> c \<and> c \<le> 57) ds \<and> (hasDigit \<or> ds \<noteq> []) \<and>
     isDigits xs \<and> isDigits ys \<and> (final = 77 \<or> final = 109)"
proof (induction cs arbitrary: index vs hasDigit)
  case Nil
  then show ?case by simp
next
  case (Cons c cs)
  show ?case
  proof (cases "48 \<le> c \<and> c \<le> 57")
    case True
    with Cons.prems obtain ds xs ys final rest where
      "cs = ds @ 59 # xs @ 59 # ys @ final # rest" "list_all (\<lambda>c. 48 \<le> c \<and> c \<le> 57) ds"
      "isDigits xs" "isDigits ys" "final = 77 \<or> final = 109"
      using Cons.IH by (fastforce split: if_splits)
    with True have "c # cs = (c # ds) @ 59 # xs @ 59 # ys @ final # rest \<and>
        list_all (\<lambda>c. 48 \<le> c \<and> c \<le> 57) (c # ds) \<and> (hasDigit \<or> c # ds \<noteq> []) \<and>
        isDigits xs \<and> isDigits ys \<and> (final = 77 \<or> final = 109)"
      by simp
    then show ?thesis by blast
  next
    case False
    with Cons.prems have h: "hasDigit" "c = 59"
      and next1: "parseSgrLoop cs (index + 1) vs 1 False pressed offset = Some r"
      by (auto split: if_splits)
    from parseSgrLoop_part1 [OF next1] obtain xs ys final rest where
      "cs = xs @ 59 # ys @ final # rest" "list_all (\<lambda>c. 48 \<le> c \<and> c \<le> 57) xs" "xs \<noteq> []"
      "isDigits ys" "final = 77 \<or> final = 109"
      by auto
    with h have "c # cs = [] @ 59 # xs @ 59 # ys @ final # rest \<and>
        list_all (\<lambda>c. 48 \<le> c \<and> c \<le> 57) [] \<and> (hasDigit \<or> [] \<noteq> ([]::nat list)) \<and>
        isDigits xs \<and> isDigits ys \<and> (final = 77 \<or> final = 109)"
      by (simp add: isDigits_def)
    then show ?thesis by blast
  qed
qed

text \<open>\<open>parseMouseSequenceAt\<close> returns a sequence exactly where one starts.\<close>

lemma parseMouseSequenceAt_iff:
  "(parseMouseSequenceAt pressed str offset \<noteq> None) = mouseSequenceAt str offset"
proof
  assume "parseMouseSequenceAt pressed str offset \<noteq> None"
  then obtain r where some: "parseMouseSequenceAt pressed str offset = Some r"
    by auto
  then have two: "take 2 (drop offset str) = [27, 91]"
    by (simp add: parseMouseSequenceAt_def split: if_splits)
  from some obtain introducer tail where intro: "drop (offset + 2) str = introducer # tail"
    by (auto simp: parseMouseSequenceAt_def split: if_splits list.splits)
  have d2: "drop (offset + 2) str = drop 2 (drop offset str)"
    and d3: "drop (offset + 3) str = drop 3 (drop offset str)"
    by (simp_all add: add.commute)
  from two intro have start: "drop offset str = 27 # 91 # introducer # tail"
    by (metis d2 append_take_drop_id append_Cons append_Nil)
  then have tail: "drop (offset + 3) str = tail"
    by (simp add: d3)
  show "mouseSequenceAt str offset"
  proof (cases "introducer = 60")
    case True
    with some two intro tail
    have "parseSgrLoop tail (offset + 3) [Num 0, Num 0, Num 0] 0 False pressed offset = Some r"
      by (simp add: parseMouseSequenceAt_def parseSgrSequence_def)
    from parseSgrLoop_part0 [OF this] obtain bs xs ys final rest where
      "tail = bs @ 59 # xs @ 59 # ys @ final # rest" "isDigits bs" "isDigits xs" "isDigits ys"
      "final = 77 \<or> final = 109"
      by (auto simp: isDigits_def)
    with start True have "drop offset str = sgrSequence bs xs ys final @ rest \<and>
        isDigits bs \<and> isDigits xs \<and> isDigits ys \<and> (final = 77 \<or> final = 109)"
      by (simp add: sgrSequence_def)
    then show ?thesis by blast
  next
    case False
    with some two intro have m: "introducer = 77" and len: "offset + 6 \<le> length str"
      by (auto simp: parseMouseSequenceAt_def parseBasicSequence_def Let_def split: if_splits)
    with start show ?thesis by simp
  qed
next
  assume "mouseSequenceAt str offset"
  then show "parseMouseSequenceAt pressed str offset \<noteq> None"
  proof
    assume "\<exists>bs xs ys final rest.
        drop offset str = sgrSequence bs xs ys final @ rest \<and>
        isDigits bs \<and> isDigits xs \<and> isDigits ys \<and> (final = 77 \<or> final = 109)"
    then show ?thesis
      using parseMouseSequenceAt_sgrSequence by fastforce
  next
    assume x10: "take 3 (drop offset str) = [27, 91, 77] \<and> offset + 6 \<le> length str"
    then have "drop offset str = 27 # 91 # 77 # drop 3 (drop offset str)"
      by (metis append_take_drop_id append_Cons append_Nil)
    then obtain tail where t: "drop offset str = 27 # 91 # 77 # tail"
      by blast
    have d2: "drop (offset + 2) str = drop 2 (drop offset str)"
      by (simp add: add.commute)
    have "take 2 (drop offset str) = [27, 91]"
      and "drop (offset + 2) str = 77 # tail"
      unfolding d2 t by simp_all
    with x10 show ?thesis
      by (simp add: parseMouseSequenceAt_def parseBasicSequence_def Let_def)
  qed
qed

lemma parseSgrLoop_consumed_bound:
  "parseSgrLoop cs index vs part hasDigit pressed offset = Some (event, consumed, pressed')
     \<Longrightarrow> offset \<le> index \<Longrightarrow> offset + consumed \<le> index + length cs"
  by (induction cs index vs part hasDigit pressed offset rule: parseSgrLoop.induct)
     (auto split: if_splits prod.splits)

lemma parseMouseSequenceAt_consumed_bound:
  assumes "parseMouseSequenceAt pressed str offset = Some (event, consumed, pressed')"
  shows "offset + consumed \<le> length str"
proof -
  from assms have two: "take 2 (drop offset str) = [27, 91]"
    by (simp add: parseMouseSequenceAt_def split: if_splits)
  from assms obtain introducer rest where intro: "drop (offset + 2) str = introducer # rest"
    by (auto simp: parseMouseSequenceAt_def split: if_splits list.splits)
  then have "length (drop (offset + 2) str) = Suc (length rest)"
    by simp
  then have len: "offset + 3 \<le> length str"
    by simp
  show ?thesis
  proof (cases "introducer = 60")
    case True
    with assms two intro
    have "parseSgrLoop (drop (offset + 3) str) (offset + 3) [Num 0, Num 0, Num 0] 0 False
            pressed offset = Some (event, consumed, pressed')"
      by (simp add: parseMouseSequenceAt_def parseSgrSequence_def)
    from parseSgrLoop_consumed_bound [OF this] len show ?thesis by simp
  next
    case False
    with assms two intro show ?thesis
      by (auto simp: parseMouseSequenceAt_def parseBasicSequence_def Let_def split: if_splits)
  qed
qed

lemma parseAllMouseEventsLoop_final:
  "parseAllMouseEventsLoop pressed str offset events = (events', offset', pressed') \<Longrightarrow>
   offset \<le> length str \<Longrightarrow>
   offset \<le> offset' \<and> offset' \<le> length str \<and>
   (offset' = length str \<or> parseMouseSequenceAt pressed' str offset' = None) \<and>
   length events' - length events \<le> offset' - offset \<and> length events \<le> length events'"
proof (induction pressed str offset events rule: parseAllMouseEventsLoop.induct)
  case (1 pressed str offset events)
  show ?case
  proof (cases "offset < length str")
    case False
    with "1.prems" show ?thesis
      by (simp add: parseAllMouseEventsLoop.simps [of pressed str offset])
  next
    case lt: True
    show ?thesis
    proof (cases "parseMouseSequenceAt pressed str offset")
      case None
      with lt "1.prems" show ?thesis
        by (simp add: parseAllMouseEventsLoop.simps [of pressed str offset])
    next
      case (Some parsed)
      obtain event consumed p where parsed: "parsed = (event, consumed, p)"
        by (cases parsed)
      from Some parsed have pos: "0 < consumed" and bound: "offset + consumed \<le> length str"
        by (auto dest: parseMouseSequenceAt_consumed_pos parseMouseSequenceAt_consumed_bound)
      from lt Some parsed "1.prems"(1)
      have rec: "parseAllMouseEventsLoop p str (offset + consumed) (events @ [event])
                   = (events', offset', pressed')"
        by (simp add: parseAllMouseEventsLoop.simps [of pressed str offset])
      from "1.IH" [OF lt Some parsed [symmetric] refl rec bound] pos
      show ?thesis by auto
    qed
  qed
qed

subsection \<open>Claims about the mouse parser\<close>

text \<open>
  C1 (amended). For every SGR sequence \<open>ESC [ < b ; x ; y F\<close> with \<open>F\<close> one of \<open>M\<close>, \<open>m\<close>
  and with \<open>b\<close>, \<open>x\<close> and \<open>y\<close> below \<open>2^53\<close>, \<open>parseAllMouseEvents\<close> produces exactly one
  event. Its coordinates are \<open>x - 1\<close> and \<open>y - 1\<close>; its modifiers shift, alt and ctrl are
  the bits of \<open>b\<close> under the masks 4, 8 and 16; its button is the low two bits of \<open>b\<close>,
  except that 3 is reported as 0. Its kind is scroll when bit 6 of \<open>b\<close> is set and
  \<open>F = M\<close>; otherwise move or drag when bit 5 (motion) is set, whatever \<open>F\<close> is;
  otherwise down for \<open>F = M\<close> and up for \<open>F = m\<close>.
\<close>

theorem sgr_sequence_event:
  assumes "isDigits bs" "isDigits xs" "isDigits ys" "final = 77 \<or> final = 109"
    and "decimalValue bs < 2 ^ 53" "decimalValue xs < 2 ^ 53" "decimalValue ys < 2 ^ 53"
  shows "fst (parseAllMouseEvents pressed (sgrSequence bs xs ys final)) =
    [\<lparr> ev_type =
         (if decimalValue bs AND 64 \<noteq> 0 \<and> final = 77 then Scroll
          else if decimalValue bs AND 32 \<noteq> 0 then
            (if decimalValue bs AND 3 \<noteq> 3 \<and> pressed \<noteq> {} then Drag else Move)
          else if final = 77 then Down else Up),
       ev_button = (if decimalValue bs AND 3 = 3 then 0 else decimalValue bs AND 3),
       ev_x = Num (decimalValue xs - 1),
       ev_y = Num (decimalValue ys - 1),
       ev_modifiers = \<lparr> mod_shift = (decimalValue bs AND 4 \<noteq> 0),
                         mod_alt = (decimalValue bs AND 8 \<noteq> 0),
                         mod_ctrl = (decimalValue bs AND 16 \<noteq> 0) \<rparr>,
       ev_scroll =
         (if decimalValue bs AND 64 \<noteq> 0 \<and> final = 77
          then Some \<lparr> scroll_direction = SCROLL_DIRECTIONS (decimalValue bs AND 3),
                       scroll_delta = 1 \<rparr>
          else None) \<rparr>]"
  using assms(4)
  by (auto simp: parseAllMouseEvents_sgrSequence [OF assms(1-4)] decodeSgrEvent_def Let_def
        bitAnd_jsDecimal [OF assms(1) assms(5)] minusInt_jsDecimal [OF assms(2) assms(6)]
        minusInt_jsDecimal [OF assms(3) assms(7)])

theorem sgr_sequence_event_witness:
  "isDigits (js ''20'') \<and> isDigits (js ''10'') \<and> isDigits (js ''5'') \<and>
   decimalValue (js ''20'') < 2 ^ 53 \<and> decimalValue (js ''10'') < 2 ^ 53 \<and>
   decimalValue (js ''5'') < 2 ^ 53 \<and>
   fst (parseAllMouseEvents {} (sgrSequence (js ''20'') (js ''10'') (js ''5'') 77)) =
    [\<lparr> ev_type = Down, ev_button = 0, ev_x = Num 9, ev_y = Num 4,
       ev_modifiers = \<lparr> mod_shift = True, mod_alt = False, mod_ctrl = True \<rparr>,
       ev_scroll = None \<rparr>]"
proof -
  have b: "isDigits (js ''20'')" and x: "isDigits (js ''10'')" and y: "isDigits (js ''5'')"
    by (simp_all add: isDigits_def js_def)
  have f: "(77::nat) = 77 \<or> (77::nat) = 109"
    by simp
  have v: "decimalValue (js ''20'') = 20" "decimalValue (js ''10'') = 10"
    "decimalValue (js ''5'') = 5"
    by (simp_all add: decimalValue_def js_def)
  have s: "decimalValue (js ''20'') < 2 ^ 53" "decimalValue (js ''10'') < 2 ^ 53"
    "decimalValue (js ''5'') < 2 ^ 53"
    by (simp_all add: v)
  show ?thesis
    using sgr_sequence_event [OF b x y f s, of "{}"] b x y s
    by (simp add: v)
qed

text \<open>
  C1 as stated fails three times: the sequence \<open>ESC[<3;1;1M\<close> has the low two bits 3 and
  is reported with button 0; the sequence \<open>ESC[<32;1;1m\<close> ends in \<open>m\<close> and is a move, not
  a release; and the button code \<open>9007199254740993\<close>, which is \<open>2^53 + 1\<close> with the low
  two bits 1, reaches the decoder as the double \<open>2^53\<close> and is reported with button 0.
\<close>

theorem sgr_sequence_counterexample:
  "map ev_button (fst (parseAllMouseEvents {} (js (CHR 0x1B # ''[<3;1;1M'')))) = [0] \<and>
   decimalValue (js ''3'') AND 3 = 3 \<and>
   map ev_type (fst (parseAllMouseEvents {} (js (CHR 0x1B # ''[<32;1;1m'')))) = [Move] \<and>
   map ev_button
     (fst (parseAllMouseEvents {} (js (CHR 0x1B # ''[<9007199254740993;1;1M'')))) = [0] \<and>
   decimalValue (js ''9007199254740993'') AND 3 = 1"
  by code_simp

text \<open>
  C2 (amended). Feeding \<open>ESC[<0;10;5M\<close>, then \<open>ESC[<32;12;5M\<close>, then \<open>ESC[<0;12;5m\<close> to
  the parser, one call each with the pressed set carried over, produces exactly three
  events, in order: down (button 0, x 9, y 4), drag (button 0, x 11, y 4) and up
  (button 0, x 11, y 4). The parser itself produces no drag-end event.
\<close>

theorem sgr_drag_scenario:
  "(case parseAllMouseEvents {} (js (CHR 0x1B # ''[<0;10;5M'')) of (events1, pressed1) \<Rightarrow>
    case parseAllMouseEvents pressed1 (js (CHR 0x1B # ''[<32;12;5M'')) of (events2, pressed2) \<Rightarrow>
    case parseAllMouseEvents pressed2 (js (CHR 0x1B # ''[<0;12;5m'')) of (events3, pressed3) \<Rightarrow>
      events1 @ events2 @ events3) =
   [\<lparr> ev_type = Down, ev_button = 0, ev_x = Num 9, ev_y = Num 4,
       ev_modifiers = \<lparr> mod_shift = False, mod_alt = False, mod_ctrl = False \<rparr>,
       ev_scroll = None \<rparr>,
    \<lparr> ev_type = Drag, ev_button = 0, ev_x = Num 11, ev_y = Num 4,
       ev_modifiers = \<lparr> mod_shift = False, mod_alt = False, mod_ctrl = False \<rparr>,
       ev_scroll = None \<rparr>,
    \<lparr> ev_type = Up, ev_button = 0, ev_x = Num 11, ev_y = Num 4,
       ev_modifiers = \<lparr> mod_shift = False, mod_alt = False, mod_ctrl = False \<rparr>,
       ev_scroll = None \<rparr>]"
  by code_simp

text \<open>
  C2 as stated fails: the three calls produce three events and none after the up, and no
  event of kind drag-end is among them, whether the sequences come in three calls or
  in one.
\<close>

theorem sgr_drag_scenario_counterexample:
  "length (case parseAllMouseEvents {} (js (CHR 0x1B # ''[<0;10;5M'')) of (events1, pressed1) \<Rightarrow>
    case parseAllMouseEvents pressed1 (js (CHR 0x1B # ''[<32;12;5M'')) of (events2, pressed2) \<Rightarrow>
    case parseAllMouseEvents pressed2 (js (CHR 0x1B # ''[<0;12;5m'')) of (events3, pressed3) \<Rightarrow>
      events1 @ events2 @ events3) = 3 \<and>
   DragEnd \<notin> set (map ev_type
     (fst (parseAllMouseEvents {}
        (js (CHR 0x1B # ''[<0;10;5M'' @ CHR 0x1B # ''[<32;12;5M'' @ CHR 0x1B # ''[<0;12;5m'')))))"
  by code_simp

text \<open>
  C3 (amended). \<open>parseAllMouseEvents\<close> terminates on every input (its loop is a total
  function, by the termination proof above). A sequence is parsed at a position exactly
  when a complete mouse sequence starts there: \<open>ESC [ <\<close>, three non-empty runs of
  digits separated by \<open>;\<close>, and \<open>M\<close> or \<open>m\<close>; or \<open>ESC [ M\<close> and three more code units.
  Where none starts, the loop stops: it produces no event and does not advance. Every
  sequence it does parse advances the position by at least one code unit and never
  past the end of the input. So the call ends either at the end of the input or at the
  first position where no mouse sequence starts, with at most one event per code unit
  consumed.
\<close>

theorem parseAllMouseEvents_progress:
  "(parseMouseSequenceAt pressed str offset \<noteq> None) = mouseSequenceAt str offset \<and>
   (\<not> mouseSequenceAt str offset \<longrightarrow>
      parseAllMouseEventsLoop pressed str offset events = (events, offset, pressed)) \<and>
   (parseMouseSequenceAt pressed str offset = None \<longrightarrow>
      parseAllMouseEventsLoop pressed str offset events = (events, offset, pressed)) \<and>
   (\<forall>event consumed pressed'.
      parseMouseSequenceAt pressed str offset = Some (event, consumed, pressed') \<longrightarrow>
        1 \<le> consumed \<and> offset + consumed \<le> length str \<and>
        parseAllMouseEventsLoop pressed str offset events =
          parseAllMouseEventsLoop pressed' str (offset + consumed) (events @ [event])) \<and>
   (case parseAllMouseEventsLoop pressed str 0 [] of
      (events', offset', pressed') \<Rightarrow>
        offset' \<le> length str \<and> length events' \<le> offset' \<and>
        (offset' = length str \<or> parseMouseSequenceAt pressed' str offset' = None) \<and>
        (offset' = length str \<or> \<not> mouseSequenceAt str offset'))"
proof -
  have none: "parseAllMouseEventsLoop pressed str offset events = (events, offset, pressed)"
    if "parseMouseSequenceAt pressed str offset = None"
    using that by (simp add: parseAllMouseEventsLoop.simps [of pressed str offset])
  have iff: "(parseMouseSequenceAt p str k \<noteq> None) = mouseSequenceAt str k" for p k
    by (rule parseMouseSequenceAt_iff)
  have nomatch: "parseAllMouseEventsLoop pressed str offset events = (events, offset, pressed)"
    if "\<not> mouseSequenceAt str offset"
  proof -
    from that iff [of pressed offset] have "parseMouseSequenceAt pressed str offset = None"
      by blast
    then show ?thesis by (rule none)
  qed
  have some: "1 \<le> consumed \<and> offset + consumed \<le> length str \<and>
        parseAllMouseEventsLoop pressed str offset events =
          parseAllMouseEventsLoop pressed' str (offset + consumed) (events @ [event])"
    if s: "parseMouseSequenceAt pressed str offset = Some (event, consumed, pressed')"
    for event consumed pressed'
  proof -
    from s have pos: "0 < consumed"
      by (rule parseMouseSequenceAt_consumed_pos)
    from s have bound: "offset + consumed \<le> length str"
      by (rule parseMouseSequenceAt_consumed_bound)
    from pos bound have "offset < length str"
      by simp
    with s have "parseAllMouseEventsLoop pressed str offset events =
        parseAllMouseEventsLoop pressed' str (offset + consumed) (events @ [event])"
      by (simp add: parseAllMouseEventsLoop.simps [of pressed str offset])
    with pos bound show ?thesis by simp
  qed
  obtain events' offset' pressed' where
    r: "parseAllMouseEventsLoop pressed str 0 [] = (events', offset', pressed')"
    by (cases "parseAllMouseEventsLoop pressed str 0 []") auto
  from parseAllMouseEventsLoop_final [OF r]
  have fin: "offset' \<le> length str" "length events' \<le> offset'"
    "offset' = length str \<or> parseMouseSequenceAt pressed' str offset' = None"
    by simp_all
  from fin(3) iff [of pressed' offset']
  have fin': "offset' = length str \<or> \<not> mouseSequenceAt str offset'"
    by blast
  show ?thesis
    apply (intro conjI impI allI)
    subgoal by (rule iff)
    subgoal by (rule nomatch)
    subgoal by (rule none)
    subgoal using some by blast
    subgoal using some by blast
    subgoal using some by blast
    subgoal using fin fin' by (simp only: r prod.case simp_thms)
    done
qed

text \<open>
  The theorem at work: nothing is parsed at \<open>a\<close>, nor at the malformed \<open>ESC[<M\<close>,
  \<open>ESC[<0;;5M\<close> and \<open>ESC[<0;10;5\<close>, so no mouse sequence starts there and the call
  returns no event; \<open>ESC[<0;10;5M\<close> followed by \<open>ab\<close> is parsed and advances by 10.
\<close>

theorem parseAllMouseEvents_progress_witness:
  "\<not> mouseSequenceAt (js ''a'') 0 \<and>
   parseAllMouseEventsLoop {} (js ''a'') 0 [] = ([], 0, {}) \<and>
   \<not> mouseSequenceAt (js (CHR 0x1B # ''[<M'')) 0 \<and>
   parseAllMouseEventsLoop {} (js (CHR 0x1B # ''[<M'')) 0 [] = ([], 0, {}) \<and>
   \<not> mouseSequenceAt (js (CHR 0x1B # ''[<0;;5M'')) 0 \<and>
   parseAllMouseEventsLoop {} (js (CHR 0x1B # ''[<0;;5M'')) 0 [] = ([], 0, {}) \<and>
   \<not> mouseSequenceAt (js (CHR 0x1B # ''[<0;10;5'')) 0 \<and>
   parseAllMouseEventsLoop {} (js (CHR 0x1B # ''[<0;10;5'')) 0 [] = ([], 0, {}) \<and>
   mouseSequenceAt (js (CHR 0x1B # ''[<0;10;5Mab'')) 0 \<and>
   parseMouseSequenceAt {} (js (CHR 0x1B # ''[<0;10;5Mab'')) 0 =
     Some (\<lparr> ev_type = Down, ev_button = 0, ev_x = Num 9, ev_y = Num 4,
       ev_modifiers = \<lparr> mod_shift = False, mod_alt = False, mod_ctrl = False \<rparr>,
       ev_scroll = None \<rparr>, 10, {0}) \<and>
   parseAllMouseEventsLoop {} (js (CHR 0x1B # ''[<0;10;5Mab'')) 0 [] =
     parseAllMouseEventsLoop {0} (js (CHR 0x1B # ''[<0;10;5Mab'')) 10
       [\<lparr> ev_type = Down, ev_button = 0, ev_x = Num 9, ev_y = Num 4,
       ev_modifiers = \<lparr> mod_shift = False, mod_alt = False, mod_ctrl = False \<rparr>,
       ev_scroll = None \<rparr>]"
proof -
  have n: "parseMouseSequenceAt {} (js ''a'') 0 = None"
    "parseMouseSequenceAt {} (js (CHR 0x1B # ''[<M'')) 0 = None"
    "parseMouseSequenceAt {} (js (CHR 0x1B # ''[<0;;5M'')) 0 = None"
    "parseMouseSequenceAt {} (js (CHR 0x1B # ''[<0;10;5'')) 0 = None"
    by code_simp+
  have s: "parseMouseSequenceAt {} (js (CHR 0x1B # ''[<0;10;5Mab'')) 0 =
     Some (\<lparr> ev_type = Down, ev_button = 0, ev_x = Num 9, ev_y = Num 4,
       ev_modifiers = \<lparr> mod_shift = False, mod_alt = False, mod_ctrl = False \<rparr>,
       ev_scroll = None \<rparr>, 10, {0})"
    by code_simp
  note t = parseAllMouseEvents_progress [where pressed = "{}" and offset = 0 and events = "[]"]
  from t [of "js ''a''"] n(1)
  have a: "\<not> mouseSequenceAt (js ''a'') 0 \<and>
           parseAllMouseEventsLoop {} (js ''a'') 0 [] = ([], 0, {})"
    by simp
  from t [of "js (CHR 0x1B # ''[<M'')"] n(2)
  have b: "\<not> mouseSequenceAt (js (CHR 0x1B # ''[<M'')) 0 \<and>
           parseAllMouseEventsLoop {} (js (CHR 0x1B # ''[<M'')) 0 [] = ([], 0, {})"
    by simp
  from t [of "js (CHR 0x1B # ''[<0;;5M'')"] n(3)
  have c: "\<not> mouseSequenceAt (js (CHR 0x1B # ''[<0;;5M'')) 0 \<and>
           parseAllMouseEventsLoop {} (js (CHR 0x1B # ''[<0;;5M'')) 0 [] = ([], 0, {})"
    by simp
  from t [of "js (CHR 0x1B # ''[<0;10;5'')"] n(4)
  have d: "\<not> mouseSequenceAt (js (CHR 0x1B # ''[<0;10;5'')) 0 \<and>
           parseAllMouseEventsLoop {} (js (CHR 0x1B # ''[<0;10;5'')) 0 [] = ([], 0, {})"
    by simp
  note u = t [of "js (CHR 0x1B # ''[<0;10;5Mab'')"]
  have "parseMouseSequenceAt {} (js (CHR 0x1B # ''[<0;10;5Mab'')) 0 \<noteq> None"
    by (simp only: s option.distinct not_False_eq_True)
  with u [THEN conjunct1] have e1: "mouseSequenceAt (js (CHR 0x1B # ''[<0;10;5Mab'')) 0"
    by (rule iffD1)
  from u [THEN conjunct2, THEN conjunct2, THEN conjunct2, THEN conjunct1, rule_format, OF s]
  have e2: "parseAllMouseEventsLoop {} (js (CHR 0x1B # ''[<0;10;5Mab'')) 0 [] =
     parseAllMouseEventsLoop {0} (js (CHR 0x1B # ''[<0;10;5Mab'')) 10
       [\<lparr> ev_type = Down, ev_button = 0, ev_x = Num 9, ev_y = Num 4,
       ev_modifiers = \<lparr> mod_shift = False, mod_alt = False, mod_ctrl = False \<rparr>,
       ev_scroll = None \<rparr>]"
    by simp
  from a b c d e1 e2 s show ?thesis
    by (intro conjI) (elim conjE, assumption)+
qed

text \<open>
  C3 as stated fails: on the one-unit input \<open>a\<close> the call returns with the position
  still 0 while one unparsed code unit remains.
\<close>

theorem parseAllMouseEvents_progress_counterexample:
  "parseAllMouseEventsLoop {} (js ''a'') 0 [] = ([], 0, {}) \<and> length (js ''a'') = 1"
  by code_simp




text \<open>
  C8 (amended). After an SGR release that is neither motion nor scroll (final
  character \<open>m\<close>, bits 5 and 6 of \<open>b\<close> clear) with \<open>b\<close> below \<open>2^53\<close> the pressed set is
  empty, whichever buttons were pressed and whichever button the release names; the
  next motion event (with its button code below \<open>2^53\<close>) is then a move.
\<close>

theorem sgr_release_clears_pressed:
  assumes "isDigits bs" "isDigits xs" "isDigits ys"
    and "decimalValue bs < 2 ^ 53"
    and "decimalValue bs AND 32 = 0" and "decimalValue bs AND 64 = 0"
    and "isDigits bs'" "isDigits xs'" "isDigits ys'" "final' = 77 \<or> final' = 109"
    and "decimalValue bs' < 2 ^ 53"
    and "decimalValue bs' AND 32 \<noteq> 0" and "decimalValue bs' AND 64 = 0"
  shows "map ev_type (fst (parseAllMouseEvents pressed (sgrSequence bs xs ys 109))) = [Up] \<and>
         snd (parseAllMouseEvents pressed (sgrSequence bs xs ys 109)) = {} \<and>
         map ev_type (fst (parseAllMouseEvents
             (snd (parseAllMouseEvents pressed (sgrSequence bs xs ys 109)))
             (sgrSequence bs' xs' ys' final'))) = [Move]"
proof -
  have up: "parseAllMouseEvents pressed (sgrSequence bs xs ys 109) =
      ([fst (decodeSgrEvent pressed (jsDecimal bs) (jsDecimal xs) (jsDecimal ys) 109)], {})"
    using assms(5,6)
    by (simp add: parseAllMouseEvents_sgrSequence [OF assms(1-3)] decodeSgrEvent_def Let_def
          bitAnd_jsDecimal [OF assms(1) assms(4)])
  have ty: "ev_type (fst (decodeSgrEvent pressed (jsDecimal bs) (jsDecimal xs)
      (jsDecimal ys) 109)) = Up"
    using assms(5,6)
    by (simp add: decodeSgrEvent_def Let_def bitAnd_jsDecimal [OF assms(1) assms(4)])
  have nxt: "map ev_type (fst (parseAllMouseEvents {} (sgrSequence bs' xs' ys' final'))) = [Move]"
    using assms(10,12,13)
    by (auto simp: parseAllMouseEvents_sgrSequence [OF assms(7-10)] decodeSgrEvent_def Let_def
          bitAnd_jsDecimal [OF assms(7) assms(11)])
  show ?thesis
    by (simp add: up ty nxt)
qed

theorem sgr_release_clears_pressed_witness:
  "isDigits (js ''2'') \<and> isDigits (js ''12'') \<and> isDigits (js ''5'') \<and>
   decimalValue (js ''2'') < 2 ^ 53 \<and>
   decimalValue (js ''2'') AND 32 = 0 \<and> decimalValue (js ''2'') AND 64 = 0 \<and>
   isDigits (js ''32'') \<and> decimalValue (js ''32'') < 2 ^ 53 \<and>
   decimalValue (js ''32'') AND 32 \<noteq> 0 \<and> decimalValue (js ''32'') AND 64 = 0 \<and>
   snd (parseAllMouseEvents {0, 1} (sgrSequence (js ''2'') (js ''12'') (js ''5'') 109)) = {} \<and>
   map ev_type (fst (parseAllMouseEvents
       (snd (parseAllMouseEvents {0, 1} (sgrSequence (js ''2'') (js ''12'') (js ''5'') 109)))
       (sgrSequence (js ''32'') (js ''12'') (js ''5'') 77))) = [Move]"
proof -
  have b: "isDigits (js ''2'')" and x: "isDigits (js ''12'')" and y: "isDigits (js ''5'')"
    and b': "isDigits (js ''32'')"
    by (simp_all add: isDigits_def js_def)
  have v: "decimalValue (js ''2'') = 2" "decimalValue (js ''32'') = 32"
    by (simp_all add: decimalValue_def js_def)
  have s: "decimalValue (js ''2'') < 2 ^ 53" and s': "decimalValue (js ''32'') < 2 ^ 53"
    by (simp_all add: v)
  have r: "decimalValue (js ''2'') AND 32 = 0" "decimalValue (js ''2'') AND 64 = 0"
    and m: "decimalValue (js ''32'') AND 32 \<noteq> 0" "decimalValue (js ''32'') AND 64 = 0"
    by (simp_all add: v)
  have f: "(77::nat) = 77 \<or> (77::nat) = 109"
    by simp
  show ?thesis
    using sgr_release_clears_pressed [OF b x y s r b' x y f s' m, of "{0, 1}"] b b' x y s s' r m
    by (elim conjE) simp
qed

text \<open>
  C8 as stated fails beyond \<open>2^53\<close>: the button code \<open>9007199254741023\<close>, which is
  \<open>2^53 + 31\<close>, has bits 5 and 6 clear, but the parser's arithmetic makes \<open>2^53 + 32\<close>
  of it, so the sequence with the final character \<open>m\<close> is taken for a motion: with
  button 0 pressed it is a drag and the pressed set is not cleared.
\<close>

theorem sgr_release_counterexample:
  "decimalValue (js ''9007199254741023'') AND 32 = 0 \<and>
   decimalValue (js ''9007199254741023'') AND 64 = 0 \<and>
   jsDecimal (js ''9007199254741023'') = Num 9007199254741024 \<and>
   parseAllMouseEvents {0} (js (CHR 0x1B # ''[<9007199254741023;12;5m'')) =
     ([\<lparr> ev_type = Drag, ev_button = 0, ev_x = Num 11, ev_y = Num 4,
         ev_modifiers = \<lparr> mod_shift = False, mod_alt = False, mod_ctrl = False \<rparr>,
         ev_scroll = None \<rparr>], {0})"
  by code_simp

text \<open>
  C6 (amended). For every X10 sequence \<open>ESC [ M B X Y\<close> with all six code units present,
  the parser consumes exactly 6 code units and produces one event, decoded from the
  button byte \<open>code(B) - 32\<close>, with \<open>x = code(X) - 33\<close> and \<open>y = code(Y) - 33\<close>. The
  modifiers use the masks 4, 8 and 16 as for SGR. The kind is scroll (button 0) when bit
  6 is set; otherwise move when bit 5 is set, with button \<open>-1\<close> when the low two bits are
  3; otherwise up (button 0) when the low two bits are 3 and down otherwise. The pressed
  set is neither read nor changed, so an X10 motion is never a drag.
\<close>

theorem x10_sequence_event:
  "parseMouseSequenceAt pressed (pre @ [27, 91, 77, B, X, Y] @ post) (length pre) =
     Some (\<lparr> ev_type =
               (if (int B - 32) AND 64 \<noteq> 0 then Scroll
                else if (int B - 32) AND 32 \<noteq> 0 then Move
                else if (int B - 32) AND 3 = 3 then Up else Down),
             ev_button =
               (if (int B - 32) AND 64 \<noteq> 0 then 0
                else if (int B - 32) AND 32 \<noteq> 0 then
                  (if (int B - 32) AND 3 = 3 then - 1 else (int B - 32) AND 3)
                else if (int B - 32) AND 3 = 3 then 0 else (int B - 32) AND 3),
             ev_x = Num (int X - 33),
             ev_y = Num (int Y - 33),
             ev_modifiers = \<lparr> mod_shift = ((int B - 32) AND 4 \<noteq> 0),
                               mod_alt = ((int B - 32) AND 8 \<noteq> 0),
                               mod_ctrl = ((int B - 32) AND 16 \<noteq> 0) \<rparr>,
             ev_scroll =
               (if (int B - 32) AND 64 \<noteq> 0
                then Some \<lparr> scroll_direction = SCROLL_DIRECTIONS ((int B - 32) AND 3),
                             scroll_delta = 1 \<rparr>
                else None) \<rparr>, 6, pressed) \<and>
   parseAllMouseEvents pressed [27, 91, 77, B, X, Y] =
     ([decodeBasicEvent (int B - 32) (int X - 33) (int Y - 33)], pressed)"
proof -
  have nth: "(pre @ [27, 91, 77, B, X, Y] @ post) ! (length pre + 3) = B"
    "(pre @ [27, 91, 77, B, X, Y] @ post) ! (length pre + 4) = X"
    "(pre @ [27, 91, 77, B, X, Y] @ post) ! (length pre + 5) = Y"
    by (simp_all add: nth_append)
  have at: "parseMouseSequenceAt pressed (pre @ [27, 91, 77, B, X, Y] @ post) (length pre) =
     Some (decodeBasicEvent (int B - 32) (int X - 33) (int Y - 33), 6, pressed)"
    by (simp add: parseMouseSequenceAt_def parseBasicSequence_def nth)
  have "parseMouseSequenceAt pressed [27, 91, 77, B, X, Y] 0 =
     Some (decodeBasicEvent (int B - 32) (int X - 33) (int Y - 33),
           length [27, 91, 77, B, X, Y], pressed)"
    by (simp add: parseMouseSequenceAt_def parseBasicSequence_def)
  then have all: "parseAllMouseEvents pressed [27, 91, 77, B, X, Y] =
     ([decodeBasicEvent (int B - 32) (int X - 33) (int Y - 33)], pressed)"
    by (simp only: parseAllMouseEvents_def parseAllMouseEvents_single prod.case)
  show ?thesis
    unfolding at all by (simp add: decodeBasicEvent_def Let_def)
qed

text \<open>
  C6 as stated fails: the X10 decoding is not that of SGR. With button byte 35 the X10
  move has button \<open>-1\<close> where the SGR event has button 0, and with a button held the X10
  motion of button byte 32 is a move where the SGR motion is a drag.
\<close>

theorem x10_sequence_counterexample:
  "map ev_button (fst (parseAllMouseEvents {} [27, 91, 77, 67, 33, 33])) = [- 1] \<and>
   map ev_button (fst (parseAllMouseEvents {} (js (CHR 0x1B # ''[<35;1;1M'')))) = [0] \<and>
   map ev_type (fst (parseAllMouseEvents {0} [27, 91, 77, 64, 33, 33])) = [Move] \<and>
   map ev_type (fst (parseAllMouseEvents {0} (js (CHR 0x1B # ''[<32;1;1M'')))) = [Drag]"
  by code_simp

section \<open>Link detection (detect-links.ts)\<close>

text \<open>
  A \<open>SimpleHighlight\<close> is the triple \<open>[start, end, group]\<close>. Of a \<open>TextChunk\<close> the function
  reads \<open>text\<close> and writes \<open>link\<close>; the other fields (\<open>fg\<close>, \<open>bg\<close>, \<open>attributes\<close>) ride along
  in the record's extension. \<open>link\<close> is \<open>{ url }\<close> or absent.
\<close>

type_synonym SimpleHighlight = "int \<times> int \<times> jsstring"

record TextChunk =
  chunk_text :: jsstring
  chunk_link :: "jsstring option"

record LinkRange =
  range_start :: int
  range_end :: int
  range_url :: jsstring

definition URL_SCOPES :: "jsstring list" where
  "URL_SCOPES = [js ''markup.link.url'', js ''string.special.url'']"

text \<open>
  \<open>String.prototype.slice(start, end)\<close>: a negative index counts from the end, both are
  clamped to \<open>0..length\<close>, and the result is empty when the range is.
\<close>

definition slice :: "jsstring \<Rightarrow> int \<Rightarrow> int \<Rightarrow> jsstring" where
  "slice s start stop =
     (let len = int (length s);
          from = (if start < 0 then max (len + start) 0 else min start len);
          to = (if stop < 0 then max (len + stop) 0 else min stop len)
      in take (nat (to - from)) (drop (nat from) s))"

definition startsWith :: "jsstring \<Rightarrow> jsstring \<Rightarrow> bool" where
  "startsWith s p = (take (length p) s = p)"

text \<open>
  \<open>String.prototype.indexOf(search, position)\<close>: the least index at or after
  \<open>position\<close> (clamped to the length) where \<open>search\<close> occurs, or \<open>-1\<close>.
\<close>

fun indexOfLoop :: "jsstring \<Rightarrow> jsstring \<Rightarrow> nat \<Rightarrow> int" where
  "indexOfLoop [] search k = (if search = [] then int k else - 1)"
| "indexOfLoop (c # cs) search k =
     (if take (length search) (c # cs) = search then int k else indexOfLoop cs search (k + 1))"

definition indexOf :: "jsstring \<Rightarrow> jsstring \<Rightarrow> nat \<Rightarrow> int" where
  "indexOf s search position =
     (let k = min position (length s) in indexOfLoop (drop k s) search k)"

text \<open>
  The inner loop \<open>for (j = i - 1; j >= 0; j--)\<close>: its argument is the list of the
  highlights before \<open>i\<close>, nearest first. It returns what it pushes onto \<open>ranges\<close>.
\<close>

fun labelRanges :: "SimpleHighlight list \<Rightarrow> jsstring \<Rightarrow> LinkRange list" where
  "labelRanges [] url = []"
| "labelRanges ((labelStart, labelEnd, prev) # earlier) url =
     (if prev = js ''markup.link.label'' then
        [\<lparr> range_start = labelStart, range_end = labelEnd, range_url = url \<rparr>]
      else if \<not> startsWith prev (js ''markup.link'') then []
      else labelRanges earlier url)"

text \<open>
  The outer loop over \<open>highlights\<close>: \<open>visited\<close> holds the highlights already visited,
  nearest first, and \<open>ranges\<close> the ranges pushed so far.
\<close>

fun collectRanges ::
  "jsstring \<Rightarrow> SimpleHighlight list \<Rightarrow> SimpleHighlight list \<Rightarrow> LinkRange list \<Rightarrow> LinkRange list" where
  "collectRanges content visited [] ranges = ranges"
| "collectRanges content visited ((start, stop, grp) # rest) ranges =
     (if grp \<notin> set URL_SCOPES then
        collectRanges content ((start, stop, grp) # visited) rest ranges
      else
        (let url = slice content start stop;
             ranges' = ranges @ [\<lparr> range_start = start, range_end = stop, range_url = url \<rparr>]
                         @ labelRanges visited url
         in collectRanges content ((start, stop, grp) # visited) rest ranges'))"

text \<open>\<open>for (const range of ranges)\<close>: the url of the first range the chunk overlaps.\<close>

fun firstOverlap :: "LinkRange list \<Rightarrow> int \<Rightarrow> nat \<Rightarrow> jsstring option" where
  "firstOverlap [] idx len = None"
| "firstOverlap (r # ranges) idx len =
     (if idx < range_end r \<and> range_start r < idx + int len then Some (range_url r)
      else firstOverlap ranges idx len)"

text \<open>
  The loop over the chunks, with \<open>contentPos\<close>. The source assigns \<open>chunk.link\<close> in
  place; the model returns the array after the loop.
\<close>

fun linkChunks ::
  "jsstring \<Rightarrow> LinkRange list \<Rightarrow> nat \<Rightarrow> 'a TextChunk_scheme list \<Rightarrow> 'a TextChunk_scheme list" where
  "linkChunks content ranges contentPos [] = []"
| "linkChunks content ranges contentPos (chunk # chunks) =
     (if length (chunk_text chunk) \<le> 1 then chunk # linkChunks content ranges contentPos chunks
      else
        (let idx = indexOf content (chunk_text chunk) contentPos in
         if idx < 0 then chunk # linkChunks content ranges contentPos chunks
         else
           (case firstOverlap ranges idx (length (chunk_text chunk)) of
              None \<Rightarrow> chunk
            | Some url \<Rightarrow> chunk\<lparr> chunk_link := Some url \<rparr>)
           # linkChunks content ranges (nat idx + length (chunk_text chunk)) chunks))"

definition detectLinks ::
  "'a TextChunk_scheme list \<Rightarrow> jsstring \<Rightarrow> SimpleHighlight list \<Rightarrow> 'a TextChunk_scheme list" where
  "detectLinks chunks content highlights =
     (let ranges = collectRanges content [] highlights []
      in if length ranges = 0 then chunks else linkChunks content ranges 0 chunks)"

lemma collectRanges_no_url:
  "\<forall>(start, stop, grp) \<in> set highlights. grp \<notin> set URL_SCOPES \<Longrightarrow>
   collectRanges content visited highlights ranges = ranges"
  by (induction highlights arbitrary: visited) auto

lemma linkChunks_length:
  "length (linkChunks content ranges contentPos chunks) = length chunks"
  by (induction chunks arbitrary: contentPos) (auto simp: Let_def)

lemma linkChunks_short:
  "i < length chunks \<Longrightarrow> length (chunk_text (chunks ! i)) \<le> 1 \<Longrightarrow>
   linkChunks content ranges contentPos chunks ! i = chunks ! i"
proof (induction chunks arbitrary: contentPos i)
  case Nil
  then show ?case by simp
next
  case (Cons chunk chunks)
  show ?case
  proof (cases i)
    case 0
    with Cons.prems show ?thesis by simp
  next
    case (Suc k)
    with Cons.prems have "k < length chunks" "length (chunk_text (chunks ! k)) \<le> 1"
      by simp_all
    then have "linkChunks content ranges p chunks ! k = chunks ! k" for p
      by (rule Cons.IH)
    with Suc show ?thesis by (simp add: Let_def)
  qed
qed

text \<open>
  C9. If no highlight has a URL scope as its group, \<open>detectLinks\<close> returns the chunks it
  was given, with every field as it was. Whatever the highlights are, it returns as
  many chunks as it was given, and a chunk whose text has at most one code unit is
  returned as it was, so it is never given a link.
\<close>

theorem detectLinks_unchanged:
  "((\<forall>(start, stop, grp) \<in> set highlights. grp \<notin> set URL_SCOPES) \<longrightarrow>
      detectLinks chunks content highlights = chunks) \<and>
   length (detectLinks chunks content highlights) = length chunks \<and>
   (\<forall>i < length chunks. length (chunk_text (chunks ! i)) \<le> 1 \<longrightarrow>
      detectLinks chunks content highlights ! i = chunks ! i)"
  by (simp add: detectLinks_def Let_def collectRanges_no_url linkChunks_length linkChunks_short)

theorem detectLinks_unchanged_witness:
  "js ''keyword'' \<notin> set URL_SCOPES \<and>
   detectLinks [\<lparr>chunk_text = js ''hello'', chunk_link = None\<rparr>,
                \<lparr>chunk_text = js '' world'', chunk_link = None\<rparr>]
     (js ''hello world'') [(0, 5, js ''keyword'')] =
     [\<lparr>chunk_text = js ''hello'', chunk_link = None\<rparr>,
      \<lparr>chunk_text = js '' world'', chunk_link = None\<rparr>] \<and>
   length (chunk_text ([\<lparr>chunk_text = js ''x'', chunk_link = None\<rparr>,
                        \<lparr>chunk_text = js ''xy'', chunk_link = None\<rparr>] ! 0)) \<le> 1 \<and>
   detectLinks [\<lparr>chunk_text = js ''x'', chunk_link = None\<rparr>,
                \<lparr>chunk_text = js ''xy'', chunk_link = None\<rparr>]
     (js ''xy'') [(0, 2, js ''markup.link.url'')] ! 0 = \<lparr>chunk_text = js ''x'', chunk_link = None\<rparr> \<and>
   map chunk_link (detectLinks [\<lparr>chunk_text = js ''x'', chunk_link = None\<rparr>,
                \<lparr>chunk_text = js ''xy'', chunk_link = None\<rparr>]
     (js ''xy'') [(0, 2, js ''markup.link.url'')]) = [None, Some (js ''xy'')]"
proof -
  have g: "\<forall>(start, stop, grp) \<in> set [(0::int, 5::int, js ''keyword'')]. grp \<notin> set URL_SCOPES"
    by (simp add: URL_SCOPES_def js_def)
  have l: "length (chunk_text ([\<lparr>chunk_text = js ''x'', chunk_link = None\<rparr>,
                        \<lparr>chunk_text = js ''xy'', chunk_link = None\<rparr>] ! 0)) \<le> 1"
    by (simp add: js_def)
  have m: "map chunk_link (detectLinks [\<lparr>chunk_text = js ''x'', chunk_link = None\<rparr>,
                \<lparr>chunk_text = js ''xy'', chunk_link = None\<rparr>]
     (js ''xy'') [(0, 2, js ''markup.link.url'')]) = [None, Some (js ''xy'')]"
    by code_simp
  have k: "js ''keyword'' \<notin> set URL_SCOPES"
    by (simp add: URL_SCOPES_def js_def)
  show ?thesis
    using detectLinks_unchanged [of "[(0, 5, js ''keyword'')]"
        "[\<lparr>chunk_text = js ''hello'', chunk_link = None\<rparr>,
          \<lparr>chunk_text = js '' world'', chunk_link = None\<rparr>]" "js ''hello world''"]
      detectLinks_unchanged [of "[(0, 2, js ''markup.link.url'')]"
        "[\<lparr>chunk_text = js ''x'', chunk_link = None\<rparr>,
          \<lparr>chunk_text = js ''xy'', chunk_link = None\<rparr>]" "js ''xy''"] g l m k
    by simp
qed

section \<open>Rebuild coalescing of the diff renderable (renderables/Diff.ts)\<close>


datatype WrapMode = WrapWord | WrapChar | WrapNone





























section \<open>Highlighting of the code renderable (renderables/Code.ts)\<close>

text \<open>
  The text buffer holds either plain text (\<open>setText\<close>) or styled chunks
  (\<open>setStyledText\<close>). Of \<open>CodeRenderable\<close> the model keeps the fields that
  \<open>startHighlight\<close> and the \<open>content\<close> setter read and write. Whether the callbacks
  \<open>_onHighlight\<close> and \<open>_onChunks\<close> are set is \<open>hasOnHighlight\<close> and \<open>hasOnChunks\<close>; what
  they return is an input of the step that follows them. \<open>updateTextInfo()\<close>,
  \<open>requestRender()\<close> and \<open>console.warn\<close> count their calls.
\<close>

datatype TextBufferContent = PlainText jsstring | StyledText "TextChunk list"

record CodeRenderable =
  codeContent :: jsstring
  codeFiletype :: "jsstring option"
  isHighlighting :: bool
  highlightsDirty :: bool
  highlightSnapshotId :: nat
  drawUnstyledText :: bool
  shouldRenderTextBuffer :: bool
  streaming :: bool
  hadInitialContent :: bool
  lastHighlights :: "SimpleHighlight list"
  hasOnHighlight :: bool
  hasOnChunks :: bool
  textBuffer :: TextBufferContent
  codeIsDestroyed :: bool
  textInfoUpdates :: nat
  codeRenderRequests :: nat
  warnings :: nat

text \<open>A filetype is truthy when it is set and not the empty string.\<close>

definition truthy :: "jsstring option \<Rightarrow> bool" where
  "truthy ft = (case ft of None \<Rightarrow> False | Some f \<Rightarrow> f \<noteq> [])"

text \<open>The setter \<open>set content(value)\<close>: every new content is a new snapshot.\<close>

definition set_content :: "jsstring \<Rightarrow> CodeRenderable \<Rightarrow> CodeRenderable" where
  "set_content v s =
     (if codeContent s \<noteq> v then
        (let s' = s\<lparr> codeContent := v, highlightsDirty := True,
                      highlightSnapshotId := highlightSnapshotId s + 1 \<rparr>
         in if streaming s' \<and> \<not> drawUnstyledText s' \<and> truthy (codeFiletype s') then s'
            else s'\<lparr> textBuffer := PlainText v, textInfoUpdates := textInfoUpdates s' + 1 \<rparr>)
      else s)"

text \<open>
  \<open>startHighlight\<close> is an async function. Its locals \<open>content\<close>, \<open>filetype\<close> and
  \<open>snapshotId\<close> are fixed before the first \<open>await\<close>; they are the request. Between two
  awaits anything may happen to the renderable, so each stretch of the function from
  one \<open>await\<close> to the next is a function of its own, from the request, what the awaited
  promise settled to, and the renderable as it is by then. A \<open>step\<close> says where the
  function is afterwards: finished, or waiting at its next \<open>await\<close>.
\<close>

record HighlightRequest =
  req_content :: jsstring
  req_filetype :: jsstring
  req_snapshotId :: nat

datatype 'a settled = Resolved 'a | Rejected

datatype step =
  Finished CodeRenderable
| AwaitHighlightOnce HighlightRequest CodeRenderable
| AwaitOnHighlight HighlightRequest "SimpleHighlight list" CodeRenderable
| AwaitOnChunks HighlightRequest "SimpleHighlight list" "TextChunk list" CodeRenderable

text \<open>
  From the call to \<open>await this._treeSitterClient.highlightOnce(content, filetype)\<close>;
  \<open>if (!filetype) return\<close> leaves for a missing and for an empty filetype.
\<close>

definition startHighlight :: "CodeRenderable \<Rightarrow> step" where
  "startHighlight s =
     (let content = codeContent s;
          filetype = codeFiletype s;
          snapshotId = highlightSnapshotId s + 1;
          s1 = s\<lparr> highlightSnapshotId := snapshotId \<rparr>
      in case filetype of
           None \<Rightarrow> Finished s1
         | Some ft \<Rightarrow>
             if ft = [] then Finished s1
             else
               (let isInitialContent = (streaming s1 \<and> \<not> hadInitialContent s1);
                    s2 = (if isInitialContent then s1\<lparr> hadInitialContent := True \<rparr> else s1);
                    s3 = s2\<lparr> isHighlighting := True \<rparr>
                in AwaitHighlightOnce
                     \<lparr> req_content = content, req_filetype = ft, req_snapshotId = snapshotId \<rparr>
                     s3))"

text \<open>The \<open>catch\<close> block.\<close>

definition catchBlock :: "HighlightRequest \<Rightarrow> CodeRenderable \<Rightarrow> CodeRenderable" where
  "catchBlock req s =
     (if req_snapshotId req \<noteq> highlightSnapshotId s then s
      else
        (let s1 = s\<lparr> warnings := warnings s + 1 \<rparr>
         in if codeIsDestroyed s1 then s1
            else s1\<lparr> textBuffer := PlainText (req_content req),
                     shouldRenderTextBuffer := True,
                     isHighlighting := False,
                     highlightsDirty := False,
                     textInfoUpdates := textInfoUpdates s1 + 1,
                     codeRenderRequests := codeRenderRequests s1 + 1 \<rparr>))"

text \<open>The last statements of the \<open>try\<close> block, after the text buffer has been set.\<close>

definition finishHighlight :: "CodeRenderable \<Rightarrow> CodeRenderable" where
  "finishHighlight s =
     s\<lparr> shouldRenderTextBuffer := True,
        isHighlighting := False,
        highlightsDirty := False,
        textInfoUpdates := textInfoUpdates s + 1,
        codeRenderRequests := codeRenderRequests s + 1 \<rparr>"

text \<open>
  From \<open>if (highlights.length > 0)\<close> to the next \<open>await\<close> or the end.
  \<open>treeSitterToTextChunks\<close> (lib/tree-sitter-styled-text) is the parameter \<open>toChunks\<close>,
  applied to the content and the highlights.
\<close>

definition applyHighlights ::
  "(jsstring \<Rightarrow> SimpleHighlight list \<Rightarrow> TextChunk list) \<Rightarrow> HighlightRequest
     \<Rightarrow> SimpleHighlight list \<Rightarrow> CodeRenderable \<Rightarrow> step" where
  "applyHighlights toChunks req highlights s =
     (if 0 < length highlights then
        (let s1 = (if streaming s then s\<lparr> lastHighlights := highlights \<rparr> else s);
             chunks = toChunks (req_content req) highlights
         in if hasOnChunks s1 then AwaitOnChunks req highlights chunks s1
            else Finished (finishHighlight (s1\<lparr> textBuffer := StyledText chunks \<rparr>)))
      else Finished (finishHighlight (s\<lparr> textBuffer := PlainText (req_content req) \<rparr>)))"

text \<open>
  The function after \<open>highlightOnce\<close> has settled: \<open>Resolved h\<close> carries
  \<open>result.highlights\<close> (\<open>None\<close> when it is missing), \<open>Rejected\<close> is a throw. Without an
  \<open>onHighlight\<close> callback the second pair of checks follows at once, on the same state.
\<close>

definition afterHighlightOnce ::
  "(jsstring \<Rightarrow> SimpleHighlight list \<Rightarrow> TextChunk list) \<Rightarrow> HighlightRequest
     \<Rightarrow> SimpleHighlight list option settled \<Rightarrow> CodeRenderable \<Rightarrow> step" where
  "afterHighlightOnce toChunks req r s =
     (case r of
        Rejected \<Rightarrow> Finished (catchBlock req s)
      | Resolved resultHighlights \<Rightarrow>
          if req_snapshotId req \<noteq> highlightSnapshotId s then Finished s
          else if codeIsDestroyed s then Finished s
          else
            (let highlights = (case resultHighlights of None \<Rightarrow> [] | Some h \<Rightarrow> h)
             in if hasOnHighlight s \<and> 0 \<le> length highlights then AwaitOnHighlight req highlights s
                else if req_snapshotId req \<noteq> highlightSnapshotId s then Finished s
                else if codeIsDestroyed s then Finished s
                else applyHighlights toChunks req highlights s))"

text \<open>
  After \<open>await this._onHighlight(highlights, context)\<close>: \<open>Resolved m\<close> carries what the
  callback returned (\<open>None\<close> for \<open>undefined\<close>).
\<close>

definition afterOnHighlight ::
  "(jsstring \<Rightarrow> SimpleHighlight list \<Rightarrow> TextChunk list) \<Rightarrow> HighlightRequest
     \<Rightarrow> SimpleHighlight list \<Rightarrow> SimpleHighlight list option settled \<Rightarrow> CodeRenderable \<Rightarrow> step" where
  "afterOnHighlight toChunks req highlights r s =
     (case r of
        Rejected \<Rightarrow> Finished (catchBlock req s)
      | Resolved modified \<Rightarrow>
          (let highlights' = (case modified of None \<Rightarrow> highlights | Some m \<Rightarrow> m)
           in if req_snapshotId req \<noteq> highlightSnapshotId s then Finished s
              else if codeIsDestroyed s then Finished s
              else applyHighlights toChunks req highlights' s))"

text \<open>After \<open>await this._onChunks(chunks, context)\<close>.\<close>

definition afterOnChunks ::
  "HighlightRequest \<Rightarrow> TextChunk list \<Rightarrow> TextChunk list option settled \<Rightarrow> CodeRenderable \<Rightarrow> step" where
  "afterOnChunks req chunks r s =
     (case r of
        Rejected \<Rightarrow> Finished (catchBlock req s)
      | Resolved modified \<Rightarrow>
          (let chunks' = (case modified of None \<Rightarrow> chunks | Some m \<Rightarrow> m)
           in Finished (finishHighlight (s\<lparr> textBuffer := StyledText chunks' \<rparr>))))"

text \<open>
  C10 (amended). If the highlight call throws, no newer snapshot has superseded the
  request and the renderable has not been destroyed, the renderable sets its text
  buffer to the plain content of the request, marks itself renderable, clears the
  highlighting and highlights-dirty flags and requests a render. A failure or a
  result that belongs to a superseded snapshot, found so when the highlight call
  settles or when the \<open>onHighlight\<close> callback returns, is discarded and leaves the
  renderable as it is.
\<close>

theorem highlight_failure_fallback:
  "(req_snapshotId req = highlightSnapshotId s \<and> \<not> codeIsDestroyed s \<longrightarrow>
      afterHighlightOnce toChunks req Rejected s =
        Finished (s\<lparr> warnings := warnings s + 1,
                     textBuffer := PlainText (req_content req),
                     shouldRenderTextBuffer := True,
                     isHighlighting := False,
                     highlightsDirty := False,
                     textInfoUpdates := textInfoUpdates s + 1,
                     codeRenderRequests := codeRenderRequests s + 1 \<rparr>)) \<and>
   (req_snapshotId req \<noteq> highlightSnapshotId s \<longrightarrow>
      afterHighlightOnce toChunks req r s = Finished s \<and>
      afterOnHighlight toChunks req highlights r s = Finished s \<and>
      afterOnChunks req chunks Rejected s = Finished s)"
  by (cases r)
     (simp_all add: afterHighlightOnce_def afterOnHighlight_def afterOnChunks_def catchBlock_def
        Let_def)

text \<open>
  After \<open>await this._onChunks(...)\<close> the function does not compare the snapshot again:
  whatever the snapshot is by then, the chunks are written to the text buffer.
\<close>

lemma afterOnChunks_resolved:
  "afterOnChunks req chunks (Resolved None) s =
     Finished (finishHighlight (s\<lparr> textBuffer := StyledText chunks \<rparr>))"
  by (simp add: afterOnChunks_def)

text \<open>
  A renderable with content and filetype, the request that \<open>startHighlight\<close> makes of it,
  and the renderable while that request is under way.
\<close>

definition sampleCode :: CodeRenderable where
  "sampleCode = \<lparr> codeContent = js ''let x'', codeFiletype = Some (js ''ts''),
     isHighlighting = False, highlightsDirty = False, highlightSnapshotId = 0,
     drawUnstyledText = False, shouldRenderTextBuffer = False, streaming = False,
     hadInitialContent = False, lastHighlights = [], hasOnHighlight = False,
     hasOnChunks = False, textBuffer = PlainText [], codeIsDestroyed = False,
     textInfoUpdates = 0, codeRenderRequests = 0, warnings = 0 \<rparr>"

definition sampleRequest :: HighlightRequest where
  "sampleRequest = \<lparr> req_content = js ''let x'', req_filetype = js ''ts'', req_snapshotId = 1 \<rparr>"

definition sampleHighlighting :: CodeRenderable where
  "sampleHighlighting = sampleCode\<lparr> highlightSnapshotId := 1, isHighlighting := True \<rparr>"

theorem highlight_failure_fallback_witness:
  "startHighlight sampleCode = AwaitHighlightOnce sampleRequest sampleHighlighting \<and>
   afterHighlightOnce (\<lambda>content highlights. []) sampleRequest Rejected sampleHighlighting =
     Finished (sampleCode\<lparr> highlightSnapshotId := 1,
                 warnings := 1,
                 textBuffer := PlainText (js ''let x''),
                 shouldRenderTextBuffer := True,
                 textInfoUpdates := 1,
                 codeRenderRequests := 1 \<rparr>) \<and>
   highlightSnapshotId (set_content (js ''let y'') sampleHighlighting) = 2 \<and>
   afterHighlightOnce (\<lambda>content highlights. []) sampleRequest Rejected
       (set_content (js ''let y'') sampleHighlighting) =
     Finished (set_content (js ''let y'') sampleHighlighting)"
proof -
  have b: "startHighlight sampleCode = AwaitHighlightOnce sampleRequest sampleHighlighting"
    by (simp add: startHighlight_def sampleCode_def sampleRequest_def sampleHighlighting_def
          Let_def js_def)
  have c: "req_snapshotId sampleRequest = highlightSnapshotId sampleHighlighting \<and>
           \<not> codeIsDestroyed sampleHighlighting"
    by (simp add: sampleCode_def sampleRequest_def sampleHighlighting_def)
  have n: "highlightSnapshotId (set_content (js ''let y'') sampleHighlighting) = 2"
    by (simp add: set_content_def sampleCode_def sampleHighlighting_def Let_def js_def)
  then have d: "req_snapshotId sampleRequest \<noteq>
                highlightSnapshotId (set_content (js ''let y'') sampleHighlighting)"
    by (simp add: sampleRequest_def)
  show ?thesis
    using highlight_failure_fallback [of sampleRequest sampleHighlighting
            "\<lambda>content highlights. []" Rejected]
      highlight_failure_fallback [of sampleRequest
            "set_content (js ''let y'') sampleHighlighting" "\<lambda>content highlights. []" Rejected]
      b c d n
    by (simp add: sampleCode_def sampleRequest_def sampleHighlighting_def)
qed

text \<open>
  C10 as stated fails for a destroyed renderable: the highlight call throws for the
  current snapshot, and the text buffer is not set to the content, the highlighting
  flag stays set and no render is requested.
\<close>

theorem highlight_failure_counterexample:
  "req_snapshotId sampleRequest =
     highlightSnapshotId (sampleHighlighting\<lparr> codeIsDestroyed := True \<rparr>) \<and>
   afterHighlightOnce (\<lambda>content highlights. []) sampleRequest Rejected
       (sampleHighlighting\<lparr> codeIsDestroyed := True \<rparr>) =
     Finished (sampleHighlighting\<lparr> codeIsDestroyed := True, warnings := 1 \<rparr>) \<and>
   textBuffer (sampleHighlighting\<lparr> codeIsDestroyed := True, warnings := 1 \<rparr>) = PlainText [] \<and>
   req_content sampleRequest = js ''let x'' \<and> js ''let x'' \<noteq> [] \<and>
   isHighlighting (sampleHighlighting\<lparr> codeIsDestroyed := True, warnings := 1 \<rparr>) \<and>
   codeRenderRequests (sampleHighlighting\<lparr> codeIsDestroyed := True, warnings := 1 \<rparr>) = 0"
  by (simp add: afterHighlightOnce_def catchBlock_def sampleCode_def sampleRequest_def
        sampleHighlighting_def Let_def js_def)

section \<open>Focus restore (the input parser and the renderer's focus handling)\<close>

text \<open>
  The renderer and its input parser are missing from the sources; the spec's section on
  the input parser and the renderer's test (tests/renderer.focus-restore.test.ts) describe
  them. The focus sequences are \<open>ESC [ I\<close> (focus-in) and \<open>ESC [ O\<close> (focus-out). The
  input arrives as a stream of bytes, cut into feeds at arbitrary places.
\<close>

type_synonym bytes = "nat list"

datatype InputEvent = FocusIn | FocusOut

datatype RendererAction = RestoreTerminalModes | EmitFocus | EmitBlur

definition focusIn :: bytes where
  "focusIn = js (CHR 0x1B # ''[I'')"

definition focusOut :: bytes where
  "focusOut = js (CHR 0x1B # ''[O'')"

text \<open>
  Modelled from the spec: the sequences are prefix-matched, so a sequence is recognised
  where the input begins with it.
\<close>

definition beginsWith :: "bytes \<Rightarrow> bytes \<Rightarrow> bool" where
  "beginsWith input p = (take (length p) input = p)"

text \<open>
  Modelled from the spec: a trailing incomplete sequence, that is a non-empty input that
  is the beginning of a focus sequence, and not all of it.
\<close>

definition incomplete :: "bytes \<Rightarrow> bool" where
  "incomplete input =
     (input \<noteq> [] \<and> length input < 3 \<and>
      (input = take (length input) focusIn \<or> input = take (length input) focusOut))"

text \<open>
  Modelled from the spec: the input parser, restricted to the two focus rows of its
  table of recognised sequences. The spec: the sequences are prefix-matched on the byte
  stream; trailing incomplete sequences are buffered for the next feed; invalid sequences
  are dropped, with no event and at most one byte of advance. The other rows of the table
  (mouse, keys, capability replies, passthrough) are left out: with respect to the two
  focus rows a byte that begins no focus sequence is invalid, and is passed over.
  The result is the events and the bytes that stay buffered.
\<close>

fun scan :: "bytes \<Rightarrow> InputEvent list \<times> bytes" where
  "scan [] = ([], [])"
| "scan (c # rest) =
     (if beginsWith (c # rest) focusIn then
        (FocusIn # fst (scan (drop 3 (c # rest))), snd (scan (drop 3 (c # rest))))
      else if beginsWith (c # rest) focusOut then
        (FocusOut # fst (scan (drop 3 (c # rest))), snd (scan (drop 3 (c # rest))))
      else if incomplete (c # rest) then ([], c # rest)
      else scan rest)"

text \<open>
  Modelled from the spec: \<open>feed(bytes)\<close>, that gives a sequence of events; the bytes
  buffered by the feed before are parsed again in front of the new ones.
\<close>

definition feed :: "bytes \<Rightarrow> bytes \<Rightarrow> InputEvent list \<times> bytes" where
  "feed buffered input = scan (buffered @ input)"

text \<open>
  Modelled from the spec: the feeds one after the other, each \<open>data\<close> event of the input
  stream being handled before the next.
\<close>

fun feedAll :: "bytes \<Rightarrow> bytes list \<Rightarrow> InputEvent list \<times> bytes" where
  "feedAll buffered [] = ([], buffered)"
| "feedAll buffered (input # inputs) =
     (fst (feed buffered input) @ fst (feedAll (snd (feed buffered input)) inputs),
      snd (feedAll (snd (feed buffered input)) inputs))"

text \<open>
  Modelled from the spec: what the renderer does on a focus event, as the list of its
  actions in the order they happen. The spec: on focus-in the presenter re-asserts the
  mouse, focus and bracketed-paste modes, and a \<open>focus\<close> event is emitted on the renderer
  bus. The test: \<open>restoreTerminalModes\<close> is called before the \<open>focus\<close> event is emitted;
  on \<open>ESC[O\<close> it is not called, and \<open>blur\<close> is emitted.
\<close>

fun handleEvent :: "InputEvent \<Rightarrow> RendererAction list" where
  "handleEvent FocusIn = [RestoreTerminalModes, EmitFocus]"
| "handleEvent FocusOut = [EmitBlur]"

text \<open>Modelled from the spec: the events are handled one after the other.\<close>

definition handleEvents :: "InputEvent list \<Rightarrow> RendererAction list" where
  "handleEvents events = concat (map handleEvent events)"

text \<open>The bytes that the terminal sends for a focus event.\<close>

fun sequenceOf :: "InputEvent \<Rightarrow> bytes" where
  "sequenceOf FocusIn = focusIn"
| "sequenceOf FocusOut = focusOut"

lemma scan_focusIn: "scan (focusIn @ rest) = (FocusIn # fst (scan rest), snd (scan rest))"
  by (simp add: focusIn_def js_def beginsWith_def)

lemma scan_focusOut: "scan (focusOut @ rest) = (FocusOut # fst (scan rest), snd (scan rest))"
  by (simp add: focusOut_def focusIn_def js_def beginsWith_def)

lemma scan_sequences:
  "scan (concat (map sequenceOf events)) = (events, [])"
proof (induction events)
  case Nil
  then show ?case by simp
next
  case (Cons e events)
  then show ?case
    by (cases e) (simp_all add: scan_focusIn scan_focusOut)
qed

lemma beginsWith_append:
  assumes "beginsWith input p"
  shows "beginsWith (input @ later) p"
proof -
  from assms have t: "take (length p) input = p"
    by (simp add: beginsWith_def)
  then have "length (take (length p) input) = length p"
    by simp
  then have "length p \<le> length input"
    by simp
  with t show ?thesis
    by (simp add: beginsWith_def)
qed

lemma focus_lengths: "length focusIn = 3" "length focusOut = 3"
  by (simp_all add: focusIn_def focusOut_def js_def)

lemma beginsWith_exclusive: "beginsWith input focusIn \<Longrightarrow> \<not> beginsWith input focusOut"
  by (simp add: beginsWith_def focus_lengths) (simp add: focusIn_def focusOut_def js_def)

lemma beginsWith_not_incomplete:
  "beginsWith input focusIn \<or> beginsWith input focusOut \<Longrightarrow> \<not> incomplete input"
  by (auto simp add: beginsWith_def incomplete_def focus_lengths)

lemma beginsWith_drop:
  assumes "beginsWith input p"
  shows "drop (length p) (input @ later) = drop (length p) input @ later"
proof -
  from assms have "length (take (length p) input) = length p"
    by (simp add: beginsWith_def)
  then have "length p \<le> length input"
    by simp
  then show ?thesis
    by simp
qed

lemma beginsWith_append_complete:
  assumes "input \<noteq> []" "\<not> incomplete input" "p = focusIn \<or> p = focusOut"
    "beginsWith (input @ later) p"
  shows "beginsWith input p"
proof (cases "3 \<le> length input")
  case True
  with assms(3,4) show ?thesis
    by (auto simp add: beginsWith_def focus_lengths)
next
  case False
  from assms(3) have l: "length p = 3"
    by (auto simp add: focus_lengths)
  from assms(4) have "take 3 (input @ later) = p"
    by (simp add: beginsWith_def l)
  then have "take (length input) (take 3 (input @ later)) = take (length input) p"
    by simp
  with False have "input = take (length input) p"
    by (simp add: min_def)
  with False assms(1,3) have "incomplete input"
    by (auto simp add: incomplete_def)
  with assms(2) show ?thesis
    by simp
qed

lemma incomplete_append:
  assumes "input \<noteq> []" "incomplete (input @ later)"
  shows "incomplete input"
proof -
  from assms(2) have l: "length (input @ later) < 3"
    and p: "input @ later = take (length (input @ later)) focusIn \<or>
            input @ later = take (length (input @ later)) focusOut"
    by (simp_all add: incomplete_def)
  from p have "input = take (length input) focusIn \<or> input = take (length input) focusOut"
  proof
    assume e: "input @ later = take (length (input @ later)) focusIn"
    have "input = take (length input) (input @ later)"
      by simp
    also have "\<dots> = take (length input) (take (length (input @ later)) focusIn)"
      by (simp only: e [symmetric])
    also have "\<dots> = take (length input) focusIn"
      by (simp add: min_def)
    finally show ?thesis
      by simp
  next
    assume e: "input @ later = take (length (input @ later)) focusOut"
    have "input = take (length input) (input @ later)"
      by simp
    also have "\<dots> = take (length input) (take (length (input @ later)) focusOut)"
      by (simp only: e [symmetric])
    also have "\<dots> = take (length input) focusOut"
      by (simp add: min_def)
    finally show ?thesis
      by simp
  qed
  with l assms(1) show ?thesis
    by (simp add: incomplete_def)
qed

lemma scan_append:
  "scan (input @ later) =
     (fst (scan input) @ fst (scan (snd (scan input) @ later)),
      snd (scan (snd (scan input) @ later)))"
proof (induction input rule: scan.induct)
  case 1
  show ?case by simp
next
  case (2 c rest)
  let ?input = "c # rest"
  consider (focusIn) "beginsWith ?input focusIn"
    | (focusOut) "\<not> beginsWith ?input focusIn" "beginsWith ?input focusOut"
    | (incomplete) "\<not> beginsWith ?input focusIn" "\<not> beginsWith ?input focusOut"
        "incomplete ?input"
    | (invalid) "\<not> beginsWith ?input focusIn" "\<not> beginsWith ?input focusOut"
        "\<not> incomplete ?input"
    by blast
  then show ?case
  proof cases
    case focusIn
    have a: "beginsWith (c # (rest @ later)) focusIn"
      using beginsWith_append [OF focusIn, of later] by simp
    have d: "drop 3 (c # (rest @ later)) = drop 3 ?input @ later"
      using beginsWith_drop [OF focusIn, of later] by (simp add: focus_lengths)
    have s: "scan (c # (rest @ later)) =
          (FocusIn # fst (scan (drop 3 ?input @ later)), snd (scan (drop 3 ?input @ later)))"
      using a d by simp
    have t: "scan ?input = (FocusIn # fst (scan (drop 3 ?input)), snd (scan (drop 3 ?input)))"
      using focusIn by simp
    show ?thesis
      unfolding append_Cons s t using "2.IH" focusIn by simp
  next
    case focusOut
    have a: "beginsWith (c # (rest @ later)) focusOut"
      using beginsWith_append [OF focusOut(2), of later] by simp
    then have n: "\<not> beginsWith (c # (rest @ later)) focusIn"
      using beginsWith_exclusive by blast
    have d: "drop 3 (c # (rest @ later)) = drop 3 ?input @ later"
      using beginsWith_drop [OF focusOut(2), of later] by (simp add: focus_lengths)
    have s: "scan (c # (rest @ later)) =
          (FocusOut # fst (scan (drop 3 ?input @ later)), snd (scan (drop 3 ?input @ later)))"
      using a n d by simp
    have t: "scan ?input = (FocusOut # fst (scan (drop 3 ?input)), snd (scan (drop 3 ?input)))"
      using focusOut by simp
    show ?thesis
      unfolding append_Cons s t using "2.IH" focusOut by simp
  next
    case incomplete
    then have "scan ?input = ([], ?input)"
      by simp
    then show ?thesis
      by simp
  next
    case invalid
    have n1: "\<not> beginsWith (c # (rest @ later)) focusIn"
      using beginsWith_append_complete [of ?input focusIn later] invalid by auto
    have n2: "\<not> beginsWith (c # (rest @ later)) focusOut"
      using beginsWith_append_complete [of ?input focusOut later] invalid by auto
    have n3: "\<not> incomplete (c # (rest @ later))"
      using incomplete_append [of ?input later] invalid by auto
    have s: "scan (c # (rest @ later)) = scan (rest @ later)"
      using n1 n2 n3 by simp
    have t: "scan ?input = scan rest"
      using invalid by simp
    show ?thesis
      unfolding append_Cons s t using "2.IH" invalid by simp
  qed
qed

lemma scan_buffered: "scan (snd (scan input)) = ([], snd (scan input))"
proof (induction input rule: scan.induct)
  case 1
  show ?case by simp
next
  case (2 c rest)
  then show ?case
    using beginsWith_not_incomplete [of "c # rest"] by auto
qed

lemma feedAll_scan:
  "scan buffered = ([], buffered) \<Longrightarrow> feedAll buffered inputs = scan (buffered @ concat inputs)"
proof (induction inputs arbitrary: buffered)
  case Nil
  then show ?case by simp
next
  case (Cons input inputs)
  have "feedAll (snd (scan (buffered @ input))) inputs =
        scan (snd (scan (buffered @ input)) @ concat inputs)"
    by (rule Cons.IH) (rule scan_buffered)
  moreover have "scan ((buffered @ input) @ concat inputs) =
     (fst (scan (buffered @ input)) @ fst (scan (snd (scan (buffered @ input)) @ concat inputs)),
      snd (scan (snd (scan (buffered @ input)) @ concat inputs)))"
    by (rule scan_append)
  ultimately show ?case
    by (simp add: feed_def)
qed

lemma count_restore:
  "count_list (handleEvents events) RestoreTerminalModes = count_list events FocusIn"
proof (induction events)
  case Nil
  then show ?case by (simp add: handleEvents_def)
next
  case (Cons e events)
  then show ?case by (cases e) (simp_all add: handleEvents_def)
qed

text \<open>
  C5. Whatever the places at which the byte stream is cut into feeds, feeding the focus
  sequences of a list of focus events gives just these events, with nothing left in the
  buffer. So feeding \<open>ESC[O\<close> and then \<open>ESC[I\<close>, in one feed, in two or cut anywhere else,
  re-asserts the terminal modes exactly once: the focus-out emits \<open>blur\<close> and restores
  nothing, the focus-in restores the modes and then emits \<open>focus\<close>. The modes are
  restored once for each focus-in event, so \<open>n\<close> focus-in sequences in the stream restore
  them \<open>n\<close> times.
\<close>

theorem focus_restore_once:
  "(concat inputs = concat (map sequenceOf events) \<longrightarrow>
      feedAll [] inputs = (events, []) \<and>
      count_list (handleEvents (fst (feedAll [] inputs))) RestoreTerminalModes =
        count_list events FocusIn) \<and>
   (concat inputs = focusOut @ focusIn \<longrightarrow>
      fst (feedAll [] inputs) = [FocusOut, FocusIn] \<and>
      handleEvents (fst (feedAll [] inputs)) = [EmitBlur, RestoreTerminalModes, EmitFocus] \<and>
      count_list (handleEvents (fst (feedAll [] inputs))) RestoreTerminalModes = 1) \<and>
   (concat inputs = concat (replicate n (focusOut @ focusIn)) \<longrightarrow>
      count_list (handleEvents (fst (feedAll [] inputs))) RestoreTerminalModes = n) \<and>
   RestoreTerminalModes \<notin> set (handleEvent FocusOut) \<and>
   handleEvent FocusIn = [RestoreTerminalModes, EmitFocus]"
proof (intro conjI impI)
  have f: "feedAll [] inputs = scan (concat inputs)"
    using feedAll_scan [of "[]" inputs] by simp
  {
    assume "concat inputs = concat (map sequenceOf events)"
    then show e: "feedAll [] inputs = (events, [])"
      by (simp add: f scan_sequences)
    then show "count_list (handleEvents (fst (feedAll [] inputs))) RestoreTerminalModes =
        count_list events FocusIn"
      by (simp add: count_restore)
  }
  {
    assume "concat inputs = focusOut @ focusIn"
    then have "concat inputs = concat (map sequenceOf [FocusOut, FocusIn])"
      by simp
    then have "feedAll [] inputs = ([FocusOut, FocusIn], [])"
      by (simp only: f scan_sequences)
    then show "fst (feedAll [] inputs) = [FocusOut, FocusIn]"
      and "handleEvents (fst (feedAll [] inputs)) = [EmitBlur, RestoreTerminalModes, EmitFocus]"
      and "count_list (handleEvents (fst (feedAll [] inputs))) RestoreTerminalModes = 1"
      by (simp_all add: handleEvents_def)
  }
  {
    assume a: "concat inputs = concat (replicate n (focusOut @ focusIn))"
    have "concat (replicate n (focusOut @ focusIn)) =
          concat (map sequenceOf (concat (replicate n [FocusOut, FocusIn])))"
      by (induction n) simp_all
    with a have "feedAll [] inputs = (concat (replicate n [FocusOut, FocusIn]), [])"
      by (simp only: f scan_sequences)
    moreover have "count_list (concat (replicate n [FocusOut, FocusIn])) FocusIn = n"
      by (induction n) simp_all
    ultimately show "count_list (handleEvents (fst (feedAll [] inputs))) RestoreTerminalModes = n"
      by (simp add: count_restore)
  }
  show "RestoreTerminalModes \<notin> set (handleEvent FocusOut)"
    by simp
  show "handleEvent FocusIn = [RestoreTerminalModes, EmitFocus]"
    by simp
qed

text \<open>
  The theorem at work: \<open>ESC[O ESC[I\<close> in one feed, and the same bytes cut in the middle of
  both sequences, and two rounds of focus-out and focus-in in three feeds.
\<close>

theorem focus_restore_once_witness:
  "concat [focusOut @ focusIn] = focusOut @ focusIn \<and>
   handleEvents (fst (feedAll [] [focusOut @ focusIn])) =
     [EmitBlur, RestoreTerminalModes, EmitFocus] \<and>
   concat [[27], [91, 79, 27, 91], [73]] = focusOut @ focusIn \<and>
   handleEvents (fst (feedAll [] [[27], [91, 79, 27, 91], [73]])) =
     [EmitBlur, RestoreTerminalModes, EmitFocus] \<and>
   feedAll [] [[27], [91, 79, 27, 91], [73]] = ([FocusOut, FocusIn], []) \<and>
   concat [[27, 91, 79, 27], [91, 73, 27, 91, 79, 27, 91], [73]] =
     concat (replicate 2 (focusOut @ focusIn)) \<and>
   count_list
     (handleEvents (fst (feedAll [] [[27, 91, 79, 27], [91, 73, 27, 91, 79, 27, 91], [73]])))
     RestoreTerminalModes = 2"
proof -
  have c: "concat [focusOut @ focusIn] = focusOut @ focusIn"
    "concat [[27], [91, 79, 27, 91], [73]] = focusOut @ focusIn"
    "concat [[27], [91, 79, 27, 91], [73]] = concat (map sequenceOf [FocusOut, FocusIn])"
    "concat [[27, 91, 79, 27], [91, 73, 27, 91, 79, 27, 91], [73]] =
       concat (replicate 2 (focusOut @ focusIn))"
    by (simp_all add: focusIn_def focusOut_def js_def numeral_2_eq_2)
  show ?thesis
    using focus_restore_once [of "[focusOut @ focusIn]" "[FocusOut, FocusIn]" 2]
      focus_restore_once [of "[[27], [91, 79, 27, 91], [73]]" "[FocusOut, FocusIn]" 2]
      focus_restore_once [of "[[27, 91, 79, 27], [91, 73, 27, 91, 79, 27, 91], [73]]" "[]" 2]
      c
    by (elim conjE) simp
qed

end
